theory Spec2Isabelle
  imports Main "HOL-Library.Char_ord" "HOL-Library.List_Lexorder" "HOL-Library.AList"
    "HOL-Library.Sublist"
begin

section \<open>Python strings and the builtins the parser uses\<close>

text \<open>
  A Python \<^verbatim>\<open>str\<close> is modelled as a \<^typ>\<open>string\<close>: a list of characters with code
  points 0..255, ordered by code point (\<open>Char_ord\<close>) and, as lists, lexicographically
  (\<open>List_Lexorder\<close>), which is the order of Python's \<^verbatim>\<open>sorted\<close> on strings.
\<close>

definition TAB :: char where
  "TAB = CHR 0x09"

definition NL :: char where
  "NL = CHR 0x0A"

text \<open>\<^verbatim>\<open>str.isspace\<close> on one character, which is also the class \<^verbatim>\<open>\s\<close> of \<^verbatim>\<open>re\<close> on
  \<^verbatim>\<open>str\<close> patterns: U+0009..U+000D, U+001C..U+0020, U+0085 and U+00A0.\<close>

definition py_isspace :: "char \<Rightarrow> bool" where
  "py_isspace c \<longleftrightarrow>
     (CHR 0x09 \<le> c \<and> c \<le> CHR 0x0D) \<or> (CHR 0x1C \<le> c \<and> c \<le> CHR 0x20) \<or>
     c = CHR 0x85 \<or> c = CHR 0xA0"

text \<open>The class \<^verbatim>\<open>\d\<close> below code point 256, and the digits \<^verbatim>\<open>int\<close> reads there.\<close>

definition is_digit :: "char \<Rightarrow> bool" where
  "is_digit c \<longleftrightarrow> CHR ''0'' \<le> c \<and> c \<le> CHR ''9''"

definition digit_val :: "char \<Rightarrow> int" where
  "digit_val c = of_char c - 48"

text \<open>\<^verbatim>\<open>s.startswith(p)\<close>.\<close>

definition startswith :: "string \<Rightarrow> string \<Rightarrow> bool" where
  "startswith s p \<longleftrightarrow> take (length p) s = p"

text \<open>\<^verbatim>\<open>s.lstrip(chars)\<close>, \<^verbatim>\<open>s.strip()\<close>.\<close>

definition lstrip_chars :: "string \<Rightarrow> string \<Rightarrow> string" where
  "lstrip_chars chars s = dropWhile (\<lambda>c. c \<in> set chars) s"

definition strip :: "string \<Rightarrow> string" where
  "strip s = rev (dropWhile py_isspace (rev (dropWhile py_isspace s)))"

text \<open>\<^verbatim>\<open>s.split(sep)\<close> for a separator of one character: always at least one part.\<close>

fun split_char :: "char \<Rightarrow> string \<Rightarrow> string list" where
  "split_char sep [] = [[]]"
| "split_char sep (c # cs) =
     (if c = sep then [] # split_char sep cs
      else (case split_char sep cs of
              p # ps \<Rightarrow> (c # p) # ps
            | [] \<Rightarrow> [[c]]))"

text \<open>\<^verbatim>\<open>s.split(sep, maxsplit=1)\<close>: one part when \<^verbatim>\<open>sep\<close> does not occur, else the text
  before its first occurrence and the text after it.\<close>

definition split_once :: "char \<Rightarrow> string \<Rightarrow> string list" where
  "split_once sep s =
     (if sep \<in> set s
      then [takeWhile (\<lambda>c. c \<noteq> sep) s, drop 1 (dropWhile (\<lambda>c. c \<noteq> sep) s)]
      else [s])"

text \<open>
  What the program takes from the interpreter it runs on, as a parameter of the model:
  \<^verbatim>\<open>sys.maxsize\<close>, the largest index and list length; the limit that
  \<^verbatim>\<open>sys.get_int_max_str_digits()\<close> returns for the digits \<^verbatim>\<open>int\<close> reads (4300 by default,
  0 where there is no limit); and the memory at hand where line 139 multiplies a list by
  a number read from the document, as the number of elements of the largest list that
  can be built there. Running out of memory in any other place is not modelled.
\<close>

record interp =
  maxsize :: int
  max_str_digits :: int
  capacity :: int

text \<open>A 64-bit CPython with the default digit limit and room for a million elements.\<close>

definition interp64 :: interp where
  "interp64 = \<lparr>maxsize = 9223372036854775807, max_str_digits = 4300, capacity = 1000000\<rparr>"

text \<open>
  \<^verbatim>\<open>int(s)\<close> in base 10: surrounding whitespace is stripped, one sign is allowed, and
  single underscores may stand between digits. A literal of more than 640 digits that
  has more digits than the interpreter's limit is refused. \<open>None\<close> is \<^verbatim>\<open>ValueError\<close>.
\<close>

definition digits_value :: "string \<Rightarrow> int" where
  "digits_value ds = foldl (\<lambda>a d. 10 * a + digit_val d) 0 ds"

fun int_body_ok :: "string \<Rightarrow> bool" where
  "int_body_ok [] = False"
| "int_body_ok [c] = is_digit c"
| "int_body_ok (c # d # cs) =
     (if is_digit c then int_body_ok (d # cs)
      else c = CHR ''_'' \<and> is_digit d \<and> int_body_ok (d # cs))"

definition int_literal_ok :: "string \<Rightarrow> bool" where
  "int_literal_ok b \<longleftrightarrow> (case b of [] \<Rightarrow> False | c # _ \<Rightarrow> is_digit c \<and> int_body_ok b)"

definition over_digit_limit :: "interp \<Rightarrow> nat \<Rightarrow> bool" where
  "over_digit_limit it n \<longleftrightarrow> int n > 640 \<and> max_str_digits it > 0 \<and> int n > max_str_digits it"

definition py_int :: "interp \<Rightarrow> string \<Rightarrow> int option" where
  "py_int it s =
     (let t = strip s;
          neg = startswith t ''-'';
          body = (if startswith t ''-'' \<or> startswith t ''+'' then drop 1 t else t);
          digits = filter (\<lambda>c. c \<noteq> CHR ''_'') body
      in if int_literal_ok body \<and> \<not> over_digit_limit it (length digits)
         then Some ((if neg then - 1 else 1) * digits_value digits)
         else None)"

section \<open>The errors of the parser\<close>

text \<open>Each constructor is one place where the source raises.\<close>

datatype error =
    HeaderUnpack        \<comment> \<open>line 93: \<^verbatim>\<open>ValueError\<close>, a header line without \<^verbatim>\<open>:\<close>\<close>
  | NoSections          \<comment> \<open>line 109: \<^verbatim>\<open>ValueError\<close>, \<^verbatim>\<open>zip(*sections)\<close> of no match\<close>
  | EmptyTokenList      \<comment> \<open>line 137: \<^verbatim>\<open>IndexError\<close>, \<^verbatim>\<open>x[-1]\<close> of an empty list\<close>
  | BadRepeatCount      \<comment> \<open>line 138: \<^verbatim>\<open>ValueError\<close> of \<^verbatim>\<open>int\<close>\<close>
  | RepeatOverflow      \<comment> \<open>line 139: \<^verbatim>\<open>OverflowError\<close>, the count is no index\<close>
  | OutOfMemory         \<comment> \<open>line 139: \<^verbatim>\<open>MemoryError\<close>, the repeated list is too long\<close>
  | NoRetainedSections  \<comment> \<open>line 148: \<^verbatim>\<open>ValueError\<close>, \<^verbatim>\<open>zip(*lab_n_chords)\<close> of nothing\<close>
  | NoSongs             \<comment> \<open>line 61: \<^verbatim>\<open>ValueError\<close>, \<^verbatim>\<open>zip(*x)\<close> of no song\<close>
  | UnknownToken        \<comment> \<open>lines 78-79: \<^verbatim>\<open>KeyError\<close>\<close>

section \<open>Label Normalizer: \<^verbatim>\<open>clean_labels\<close>\<close>

definition label_prefixes :: "string list" where
  "label_prefixes =
     [''trans'', ''verse'', ''chorus'', ''prechorus'', ''intro'', ''instrumental'', ''spoken'']"

text \<open>Lines 112-119. The loop over the prefixes rebinds \<^verbatim>\<open>label\<close>, so it is a fold.\<close>

definition clean_labels :: "string \<Rightarrow> string" where
  "clean_labels label =
     (let label = filter (\<lambda>c. c \<noteq> CHR ''-'') label;
          label = filter (\<lambda>c. c \<noteq> CHR '' '') label;
          label = fold (\<lambda>prefix label. if startswith label prefix then prefix else label)
                    label_prefixes label
      in if label = ''modulation'' then ''keychange'' else label)"

section \<open>Repeat Resolver: \<^verbatim>\<open>resolve_repeats\<close>\<close>

text \<open>
  \<^verbatim>\<open>a * n\<close> for a list \<^verbatim>\<open>a\<close> and an integer \<^verbatim>\<open>n\<close>. The count is first made an index,
  which raises \<^verbatim>\<open>OverflowError\<close> outside \<^verbatim>\<open>-sys.maxsize-1 .. sys.maxsize\<close>, also for an
  empty list. The result is empty for an empty list and for \<^verbatim>\<open>n \<le> 0\<close>. Otherwise
  \<^verbatim>\<open>MemoryError\<close> is raised where the length of the result is beyond \<^verbatim>\<open>sys.maxsize\<close>
  or beyond what can be allocated.
\<close>

definition list_repeat :: "interp \<Rightarrow> 'a list \<Rightarrow> int \<Rightarrow> error + 'a list" where
  "list_repeat it a n =
     (if n > maxsize it \<or> n < - maxsize it - 1 then Inl RepeatOverflow
      else if a = [] \<or> n \<le> 0 then Inr []
      else if int (length a) > maxsize it div n \<or> int (length a) * n > capacity it
      then Inl OutOfMemory
      else Inr (concat (replicate (nat n) a)))"

text \<open>Lines 136-140.\<close>

definition resolve_repeats :: "interp \<Rightarrow> string list \<Rightarrow> error + string list" where
  "resolve_repeats it x =
     (if x = [] then Inl EmptyTokenList
      else if startswith (last x) ''x'' then
        (case py_int it (drop 1 (last x)) of
           None \<Rightarrow> Inl BadRepeatCount
         | Some reps \<Rightarrow> list_repeat it (butlast x) reps)
      else Inr x)"

section \<open>Chord Tokenizer: \<^verbatim>\<open>valid_symbol.findall\<close>\<close>

text \<open>
  Line 126: \<^verbatim>\<open>(?:[A-G][#b]?:\S+)|\*|(?:\&pause)|(?:x\d+)|N\<close>. Each function below is one
  alternative matched at the start of the text: the token and the text after it.

  In the first alternative, \<^verbatim>\<open>[#b]?\<close> is greedy; when it has taken a character and
  \<^verbatim>\<open>:\<close> does not follow, giving the character back leaves \<^verbatim>\<open>#\<close> or \<^verbatim>\<open>b\<close> where
  \<^verbatim>\<open>:\<close> must match, so the alternative fails. \<^verbatim>\<open>\S+\<close> and \<^verbatim>\<open>\d+\<close> end the pattern
  and take the longest run.
\<close>

definition match_chord :: "string \<Rightarrow> (string \<times> string) option" where
  "match_chord s =
     (case s of
        [] \<Rightarrow> None
      | r # s1 \<Rightarrow>
          if CHR ''A'' \<le> r \<and> r \<le> CHR ''G'' then
            (let acc = (case s1 of
                          [] \<Rightarrow> []
                        | c # _ \<Rightarrow> if c = CHR ''#'' \<or> c = CHR ''b'' then [c] else []);
                 s2 = drop (length acc) s1
             in case s2 of
                  [] \<Rightarrow> None
                | c # s3 \<Rightarrow>
                    if c = CHR '':'' \<and> takeWhile (\<lambda>c. \<not> py_isspace c) s3 \<noteq> []
                    then Some (r # acc @ CHR '':'' # takeWhile (\<lambda>c. \<not> py_isspace c) s3,
                               dropWhile (\<lambda>c. \<not> py_isspace c) s3)
                    else None)
          else None)"

definition match_literal :: "string \<Rightarrow> string \<Rightarrow> (string \<times> string) option" where
  "match_literal lit s = (if startswith s lit then Some (lit, drop (length lit) s) else None)"

definition match_repeat :: "string \<Rightarrow> (string \<times> string) option" where
  "match_repeat s =
     (case s of
        [] \<Rightarrow> None
      | c # cs \<Rightarrow>
          if c = CHR ''x'' \<and> takeWhile is_digit cs \<noteq> []
          then Some (c # takeWhile is_digit cs, dropWhile is_digit cs)
          else None)"

text \<open>The alternatives are tried in the order of the pattern; the first that matches wins.\<close>

definition valid_symbol_match :: "string \<Rightarrow> (string \<times> string) option" where
  "valid_symbol_match s =
     (case match_chord s of Some m \<Rightarrow> Some m | None \<Rightarrow>
      case match_literal ''*'' s of Some m \<Rightarrow> Some m | None \<Rightarrow>
      case match_literal ''&pause'' s of Some m \<Rightarrow> Some m | None \<Rightarrow>
      case match_repeat s of Some m \<Rightarrow> Some m | None \<Rightarrow>
      match_literal ''N'' s)"

lemma match_chord_splits: "match_chord s = Some (t, r) \<Longrightarrow> s = t @ r \<and> t \<noteq> []"
  by (auto simp: match_chord_def Let_def split: list.splits if_splits)

lemma match_literal_splits: "match_literal lit s = Some (t, r) \<Longrightarrow> s = t @ r \<and> t = lit"
  by (auto simp: match_literal_def startswith_def split: if_splits)
    (metis append_take_drop_id)

lemma match_repeat_splits: "match_repeat s = Some (t, r) \<Longrightarrow> s = t @ r \<and> t \<noteq> []"
  by (auto simp: match_repeat_def split: list.splits if_splits)

lemma valid_symbol_match_splits:
  "valid_symbol_match s = Some (t, r) \<Longrightarrow> s = t @ r \<and> t \<noteq> []"
  unfolding valid_symbol_match_def
  by (auto split: option.splits
      dest: match_chord_splits match_repeat_splits match_literal_splits)

text \<open>\<^verbatim>\<open>findall\<close> scans from the left: a match is taken and the scan goes on after it,
  and where nothing matches one character is skipped. No match is empty.\<close>

function findall :: "string \<Rightarrow> string list" where
  "findall [] = []"
| "findall (c # cs) =
     (case valid_symbol_match (c # cs) of
        Some (tok, rest) \<Rightarrow> tok # findall rest
      | None \<Rightarrow> findall cs)"
  by pat_completeness auto
termination
proof (relation "measure length")
  fix c cs x2 tok rest
  assume "valid_symbol_match (c # cs) = Some x2" "(tok, rest) = x2"
  then have "c # cs = tok @ rest \<and> tok \<noteq> []"
    using valid_symbol_match_splits by metis
  then have "length rest < length (c # cs)"
    by (metis length_append length_greater_0_conv less_add_same_cancel2)
  then show "(rest, c # cs) \<in> measure length" by simp
qed auto

text \<open>Lines 130-131.\<close>

definition valid_lines :: "string list \<Rightarrow> bool" where
  "valid_lines symbols \<longleftrightarrow> length symbols > 0"

section \<open>Section Segmenter: \<^verbatim>\<open>section_regex\<close>\<close>

text \<open>
  Line 105, with \<^verbatim>\<open>re.MULTILINE\<close>:
  \<^verbatim>\<open>^.*\t(?:[A-Z]'*, )?(?P<type>[a-z\-]+),(?:.*\n)*?(?=^.*\t(?:[A-Z]'*, )?(?:[a-z\-]+))\<close>.
  \<^verbatim>\<open>.\<close> does not match a newline and \<^verbatim>\<open>^\<close> matches at the start of a line only, so the
  pattern is read line by line, on the lines of \<^verbatim>\<open>salami.split('\n')\<close>.
\<close>

definition is_label_char :: "char \<Rightarrow> bool" where
  "is_label_char c \<longleftrightarrow> (CHR ''a'' \<le> c \<and> c \<le> CHR ''z'') \<or> c = CHR ''-''"

text \<open>
  \<^verbatim>\<open>(?:[A-Z]'*, )?\<close> at the start of the text: what is left after the optional group.
  Where the group matches and is given back, a capital letter stands where
  \<^verbatim>\<open>[a-z\-]\<close> must match, so nothing is gained by backtracking into it.
\<close>

definition skip_variant :: "string \<Rightarrow> string" where
  "skip_variant s =
     (case s of
        [] \<Rightarrow> []
      | c # cs \<Rightarrow>
          if CHR ''A'' \<le> c \<and> c \<le> CHR ''Z'' \<and>
             startswith (dropWhile (\<lambda>c. c = CHR 0x27) cs) '', ''
          then drop 2 (dropWhile (\<lambda>c. c = CHR 0x27) cs)
          else s)"

text \<open>\<^verbatim>\<open>(?:[A-Z]'*, )?(?P<type>[a-z\-]+),\<close> on the text after a tab: the group \<^verbatim>\<open>type\<close>.
  The comma is no label character, so only the longest run of label characters can be
  followed by it.\<close>

definition match_head :: "string \<Rightarrow> string option" where
  "match_head s =
     (let r = skip_variant s
      in if takeWhile is_label_char r \<noteq> [] \<and> startswith (dropWhile is_label_char r) '',''
         then Some (takeWhile is_label_char r)
         else None)"

text \<open>\<^verbatim>\<open>(?:[A-Z]'*, )?(?:[a-z\-]+)\<close> on the text after a tab, in the lookahead.\<close>

definition match_like :: "string \<Rightarrow> bool" where
  "match_like s = (case skip_variant s of [] \<Rightarrow> False | c # _ \<Rightarrow> is_label_char c)"

text \<open>The texts after each tab of a line, the leftmost tab first.\<close>

fun after_tabs :: "string \<Rightarrow> string list" where
  "after_tabs [] = []"
| "after_tabs (c # cs) = (if c = TAB then cs # after_tabs cs else after_tabs cs)"

fun first_some :: "('a \<Rightarrow> 'b option) \<Rightarrow> 'a list \<Rightarrow> 'b option" where
  "first_some f [] = None"
| "first_some f (x # xs) = (case f x of Some y \<Rightarrow> Some y | None \<Rightarrow> first_some f xs)"

text \<open>\<^verbatim>\<open>^.*\t\<close> is greedy: the last tab of the line is tried first. The rest of the match
  (whole lines up to the lookahead) does not depend on the tab chosen, so the group is the
  one of the last tab after which the head matches.\<close>

definition section_label :: "string \<Rightarrow> string option" where
  "section_label line = first_some match_head (rev (after_tabs line))"

definition section_like :: "string \<Rightarrow> bool" where
  "section_like line = list_ex match_like (after_tabs line)"

text \<open>
  \<^verbatim>\<open>re.finditer\<close>, as (group \<^verbatim>\<open>type\<close>, matched text) per match (line 108). A match starts
  at a line whose head matches; \<^verbatim>\<open>(?:.*\n)*?\<close> is lazy and takes whole lines, at least
  the rest of the first one, up to the first later line at which the lookahead holds. The
  search goes on at that line. Where no later line satisfies the lookahead there is no
  match at this line, and the search goes on at the next one.
\<close>

function finditer_sections :: "string list \<Rightarrow> (string \<times> string) list" where
  "finditer_sections [] = []"
| "finditer_sections (l # ls) =
     (case section_label l of
        None \<Rightarrow> finditer_sections ls
      | Some label \<Rightarrow>
          if dropWhile (\<lambda>x. \<not> section_like x) ls = [] then finditer_sections ls
          else (label, concat (map (\<lambda>x. x @ [NL]) (l # takeWhile (\<lambda>x. \<not> section_like x) ls)))
               # finditer_sections (dropWhile (\<lambda>x. \<not> section_like x) ls))"
  by pat_completeness auto
termination
  by (relation "measure length") (auto simp: length_dropWhile_le less_Suc_eq_le)

section \<open>Header Extractor\<close>

text \<open>Lines 91-94. A dictionary is an association list in insertion order
  (\<open>AList.update\<close> overwrites in place, as a Python \<^verbatim>\<open>dict\<close> does).\<close>

fun dict_of_headers :: "string list \<Rightarrow> (string \<times> string) list \<Rightarrow> error + (string \<times> string) list" where
  "dict_of_headers [] d = Inr d"
| "dict_of_headers (x # xs) d =
     (case split_once (CHR '':'') (lstrip_chars ''# '' x) of
        [k, v] \<Rightarrow> dict_of_headers xs (AList.update k (strip v) d)
      | _ \<Rightarrow> Inl HeaderUnpack)"

definition extract_headers :: "string \<Rightarrow> string list \<Rightarrow> error + (string \<times> string) list" where
  "extract_headers fname lines =
     (case dict_of_headers (filter (\<lambda>x. startswith x ''#'') lines) [] of
        Inl e \<Rightarrow> Inl e
      | Inr headers \<Rightarrow> Inr (AList.update ''url'' fname headers))"

section \<open>Sequence Assembler and \<^verbatim>\<open>_process_salami\<close>\<close>

text \<open>The first error of a list of results, as consuming the lazy \<^verbatim>\<open>map\<close> raises it.\<close>

fun collect :: "('a \<Rightarrow> error + 'b) \<Rightarrow> 'a list \<Rightarrow> error + 'b list" where
  "collect f [] = Inr []"
| "collect f (x # xs) =
     (case f x of
        Inl e \<Rightarrow> Inl e
      | Inr y \<Rightarrow> (case collect f xs of Inl e \<Rightarrow> Inl e | Inr ys \<Rightarrow> Inr (y # ys)))"

text \<open>Lines 123-144 for one section: its text is split into lines, each line is
  tokenized, lines with no symbol are removed, repeats are resolved, and the lines'
  tokens are chained.\<close>

definition section_chords :: "interp \<Rightarrow> string \<Rightarrow> error + string list" where
  "section_chords it sec =
     (case collect (resolve_repeats it) (filter valid_lines (map findall (split_char NL sec))) of
        Inl e \<Rightarrow> Inl e
      | Inr chords \<Rightarrow> Inr (concat chords))"

text \<open>Lines 150-156: the loop, with both sequences as its state.
  \<^verbatim>\<open>[label] * n\<close> is empty for \<^verbatim>\<open>n \<le> 0\<close>.\<close>

fun assemble :: "(string \<times> string list) list \<Rightarrow> string list \<Rightarrow> string list \<Rightarrow> string list \<times> string list" where
  "assemble [] chord_seq label_seq = (chord_seq, label_seq)"
| "assemble ((label, chord_sec) # rest) chord_seq label_seq =
     assemble rest (chord_seq @ chord_sec)
       ((label_seq @ replicate (nat (int (length chord_sec) - 1)) label) @ [''eos''])"

record song =
  headers :: "(string \<times> string) list"
  chord_seq :: "string list"
  label_seq :: "string list"

definition labelled_chords :: "interp \<Rightarrow> string \<times> string \<Rightarrow> error + (string \<times> string list)" where
  "labelled_chords it m =
     (case section_chords it (snd m) of
        Inl e \<Rightarrow> Inl e
      | Inr chords \<Rightarrow> Inr (clean_labels (fst m), chords))"

text \<open>The sections that line 147 keeps, or the error raised while they are computed.\<close>

definition retained_sections :: "interp \<Rightarrow> string \<Rightarrow> error + (string \<times> string list) list" where
  "retained_sections it salami =
     (case collect (labelled_chords it) (finditer_sections (split_char NL salami)) of
        Inl e \<Rightarrow> Inl e
      | Inr lab_n_chords \<Rightarrow> Inr (filter (\<lambda>x. fst x \<noteq> '''') lab_n_chords))"

definition process_salami :: "interp \<Rightarrow> string \<Rightarrow> string \<Rightarrow> error + song" where
  "process_salami it fname salami =
     (case extract_headers fname (split_char NL salami) of
        Inl e \<Rightarrow> Inl e
      | Inr hs \<Rightarrow>
          if finditer_sections (split_char NL salami) = [] then Inl NoSections
          else (case retained_sections it salami of
                  Inl e \<Rightarrow> Inl e
                | Inr [] \<Rightarrow> Inl NoRetainedSections
                | Inr kept \<Rightarrow>
                    Inr \<lparr>headers = hs, chord_seq = fst (assemble kept [] []),
                         label_seq = snd (assemble kept [] [])\<rparr>))"

section \<open>Vocabulary Builder: \<^verbatim>\<open>preprocess\<close>\<close>

text \<open>Lines 72-76: \<^verbatim>\<open>sorted(list(set(xs)))\<close> and the dictionary of \<^verbatim>\<open>enumerate\<close>.\<close>

definition sorted_set :: "string list \<Rightarrow> string list" where
  "sorted_set xs = sort (remdups xs)"

definition index_dict :: "string list \<Rightarrow> (string \<times> nat) list" where
  "index_dict xs = fold (\<lambda>(i, c) d. AList.update c i d) (enumerate 0 xs) []"

text \<open>Lines 78-79: a token that is no key raises \<^verbatim>\<open>KeyError\<close>.\<close>

definition encode :: "(string \<times> nat) list \<Rightarrow> string list \<Rightarrow> error + nat list" where
  "encode d xs = collect (\<lambda>c. case map_of d c of None \<Rightarrow> Inl UnknownToken | Some i \<Rightarrow> Inr i) xs"

record dataset =
  info :: "(string \<times> string) list list"
  chords :: "string list"
  labels :: "string list"
  chord2idx :: "(string \<times> nat) list"
  label2idx :: "(string \<times> nat) list"
  X :: "nat list list"
  y :: "nat list list"

text \<open>Lines 61-82, on the songs that \<^verbatim>\<open>_process_salami\<close> returned.\<close>

definition preprocess :: "song list \<Rightarrow> error + dataset" where
  "preprocess songs =
     (if songs = [] then Inl NoSongs
      else
        (let cs = sorted_set (concat (map chord_seq songs));
             ls = sorted_set (concat (map label_seq songs));
             c2i = index_dict cs;
             l2i = index_dict ls
         in case collect (encode c2i) (map chord_seq songs) of
              Inl e \<Rightarrow> Inl e
            | Inr xs \<Rightarrow>
                (case collect (encode l2i) (map label_seq songs) of
                   Inl e \<Rightarrow> Inl e
                 | Inr ys \<Rightarrow>
                     Inr \<lparr>info = map headers songs, chords = cs, labels = ls,
                          chord2idx = c2i, label2idx = l2i, X = xs, y = ys\<rparr>)))"

section \<open>Definitions that follow the specification's words\<close>

text \<open>Label Normalizer, step (a): the label with every hyphen and space deleted.\<close>

definition cleaned :: "string \<Rightarrow> string" where
  "cleaned l = filter (\<lambda>c. c \<noteq> CHR ''-'' \<and> c \<noteq> CHR '' '') l"

text \<open>
  Chord Tokenizer: the grammar of a symbol, as a predicate on a whole token. A chord
  symbol is a letter A-G, then optionally \<^verbatim>\<open>#\<close> or \<^verbatim>\<open>b\<close>, then \<^verbatim>\<open>:\<close> and one or more
  characters that are not whitespace.
\<close>

definition chord_tail :: "string \<Rightarrow> bool" where
  "chord_tail u \<longleftrightarrow>
     (case u of
        [] \<Rightarrow> False
      | c # body \<Rightarrow> c = CHR '':'' \<and> body \<noteq> [] \<and> list_all (\<lambda>c. \<not> py_isspace c) body)"

definition is_chord_symbol :: "string \<Rightarrow> bool" where
  "is_chord_symbol t \<longleftrightarrow>
     (case t of
        [] \<Rightarrow> False
      | r # u \<Rightarrow>
          CHR ''A'' \<le> r \<and> r \<le> CHR ''G'' \<and>
          (chord_tail u \<or>
           (case u of [] \<Rightarrow> False | a # v \<Rightarrow> (a = CHR ''#'' \<or> a = CHR ''b'') \<and> chord_tail v)))"

definition is_repeat_marker :: "string \<Rightarrow> bool" where
  "is_repeat_marker t \<longleftrightarrow>
     (case t of [] \<Rightarrow> False | c # ds \<Rightarrow> c = CHR ''x'' \<and> ds \<noteq> [] \<and> list_all is_digit ds)"

definition is_symbol :: "string \<Rightarrow> bool" where
  "is_symbol t \<longleftrightarrow>
     is_chord_symbol t \<or> t = ''*'' \<or> t = ''&pause'' \<or> is_repeat_marker t \<or> t = ''N''"

text \<open>The longest prefix of a text that is a symbol (\<open>prefixes\<close> lists the prefixes by
  growing length).\<close>

definition longest_symbol :: "string \<Rightarrow> string option" where
  "longest_symbol s =
     (if filter is_symbol (prefixes s) = [] then None
      else Some (last (filter is_symbol (prefixes s))))"

lemma longest_symbol_prefix:
  "longest_symbol s = Some t \<Longrightarrow> prefix t s \<and> is_symbol t"
proof -
  assume "longest_symbol s = Some t"
  then have ne: "filter is_symbol (prefixes s) \<noteq> []"
    and t: "t = last (filter is_symbol (prefixes s))"
    by (auto simp: longest_symbol_def split: if_splits)
  from ne have "last (filter is_symbol (prefixes s)) \<in> set (filter is_symbol (prefixes s))"
    by (rule last_in_set)
  then show ?thesis using t by simp
qed

lemma is_symbol_not_Nil: "is_symbol t \<Longrightarrow> t \<noteq> []"
  by (auto simp: is_symbol_def is_chord_symbol_def is_repeat_marker_def)

text \<open>
  The tokenizer in the specification's words: scanning from the left, the longest
  symbol that starts at the current position is taken and the scan goes on after it;
  where no symbol starts, the character is ignored.
\<close>

function tokenize_spec :: "string \<Rightarrow> string list" where
  "tokenize_spec [] = []"
| "tokenize_spec (c # cs) =
     (case longest_symbol (c # cs) of
        Some t \<Rightarrow> t # tokenize_spec (drop (length t) (c # cs))
      | None \<Rightarrow> tokenize_spec cs)"
  by pat_completeness auto
termination
proof (relation "measure length")
  fix c cs t
  assume "longest_symbol (c # cs) = Some t"
  then have "t \<noteq> []" using longest_symbol_prefix is_symbol_not_Nil by blast
  then show "(drop (length t) (c # cs), c # cs) \<in> measure length" by simp
qed auto

text \<open>The normalized labels of the sections that the Sequence Assembler retains: those
  of the segmented sections, in order, that are not the empty string.\<close>

definition retained_labels :: "string \<Rightarrow> string list" where
  "retained_labels salami =
     filter (\<lambda>l. l \<noteq> '''')
       (map (\<lambda>m. clean_labels (fst m)) (finditer_sections (split_char NL salami)))"

text \<open>
  Header Extractor: the key and the value of a header line. The key is the text before the
  first \<^verbatim>\<open>:\<close> without its leading \<^verbatim>\<open>#\<close> and space characters; the value is the text after
  the first \<^verbatim>\<open>:\<close>, trimmed of whitespace on both sides.
\<close>

definition header_key :: "string \<Rightarrow> string" where
  "header_key l = lstrip_chars ''# '' (takeWhile (\<lambda>c. c \<noteq> CHR '':'') l)"

definition header_value :: "string \<Rightarrow> string" where
  "header_value l = strip (drop 1 (dropWhile (\<lambda>c. c \<noteq> CHR '':'') l))"

section \<open>Reading a repeat count\<close>

lemma digit_not_space: "is_digit c \<Longrightarrow> \<not> py_isspace c"
  by (auto simp: is_digit_def py_isspace_def less_eq_char_def)

lemma digit_not_sign: "is_digit c \<Longrightarrow> c \<noteq> CHR ''-'' \<and> c \<noteq> CHR ''+'' \<and> c \<noteq> CHR ''_''"
  by (auto simp: is_digit_def less_eq_char_def)

lemma strip_digits:
  assumes "ds \<noteq> []" "\<forall>d\<in>set ds. is_digit d"
  shows "strip ds = ds"
proof -
  have "\<not> py_isspace (hd ds)" using assms digit_not_space by simp
  then have a: "dropWhile py_isspace ds = ds" using assms(1) by (cases ds) auto
  have "\<not> py_isspace (hd (rev ds))" using assms digit_not_space by (simp add: hd_rev)
  then have "dropWhile py_isspace (rev ds) = rev ds" using assms(1) by (cases "rev ds") auto
  then show ?thesis by (simp add: strip_def a)
qed

lemma int_body_ok_digits: "ds \<noteq> [] \<Longrightarrow> \<forall>d\<in>set ds. is_digit d \<Longrightarrow> int_body_ok ds"
  by (induction ds rule: int_body_ok.induct) auto

lemma py_int_digits:
  assumes "ds \<noteq> []" "\<forall>d\<in>set ds. is_digit d"
  shows "py_int it ds =
     (if over_digit_limit it (length ds) then None else Some (digits_value ds))"
proof -
  obtain c cs where ds: "ds = c # cs" using assms(1) by (cases ds) auto
  have c: "is_digit c" using assms(2) ds by simp
  have s: "\<not> startswith ds ''-''" "\<not> startswith ds ''+''"
    using digit_not_sign[OF c] by (auto simp: startswith_def ds)
  have ok: "int_literal_ok ds"
    using int_body_ok_digits[OF assms] c by (simp add: int_literal_ok_def ds)
  have f: "filter (\<lambda>c. c \<noteq> CHR ''_'') ds = ds"
    using assms(2) digit_not_sign by (simp add: filter_id_conv)
  show ?thesis
    by (simp add: py_int_def strip_digits[OF assms] s ok f Let_def)
qed

section \<open>The tokenizer against the grammar\<close>

lemma list_all_takeWhile: "list_all P (takeWhile P xs)"
  by (induction xs) auto

lemma match_chord_symbol:
  assumes "match_chord s = Some (t, r)"
  shows "is_chord_symbol t"
proof -
  obtain r0 s1 where s: "s = r0 # s1"
    using assms by (cases s) (auto simp: match_chord_def)
  define acc where
    "acc = (case s1 of [] \<Rightarrow> [] | c # _ \<Rightarrow> if c = CHR ''#'' \<or> c = CHR ''b'' then [c] else [])"
  define body where
    "body = takeWhile (\<lambda>c. \<not> py_isspace c) (tl (drop (length acc) s1))"
  have acc: "acc = [] \<or> acc = ''#'' \<or> acc = ''b''"
    by (auto simp: acc_def split: list.splits)
  have m: "match_chord s =
     (if CHR ''A'' \<le> r0 \<and> r0 \<le> CHR ''G'' then
        (case drop (length acc) s1 of
           [] \<Rightarrow> None
         | c # s3 \<Rightarrow>
             if c = CHR '':'' \<and> takeWhile (\<lambda>c. \<not> py_isspace c) s3 \<noteq> []
             then Some (r0 # acc @ CHR '':'' # takeWhile (\<lambda>c. \<not> py_isspace c) s3,
                        dropWhile (\<lambda>c. \<not> py_isspace c) s3)
             else None)
      else None)"
    unfolding match_chord_def s acc_def by (simp add: Let_def)
  from assms have r0: "CHR ''A'' \<le> r0" "r0 \<le> CHR ''G''"
    and t: "t = r0 # acc @ CHR '':'' # body" and b: "body \<noteq> []"
    unfolding m body_def by (auto split: list.splits if_splits)
  have "list_all (\<lambda>c. \<not> py_isspace c) body"
    by (simp add: body_def list_all_takeWhile)
  then have "chord_tail (CHR '':'' # body)" using b by (simp add: chord_tail_def)
  then show ?thesis
    using acc r0 by (auto simp: is_chord_symbol_def t)
qed

lemma match_repeat_symbol:
  assumes "match_repeat s = Some (t, r)"
  shows "is_repeat_marker t"
proof -
  obtain c cs where s: "s = c # cs"
    using assms by (cases s) (auto simp: match_repeat_def)
  from assms have "t = CHR ''x'' # takeWhile is_digit cs" "takeWhile is_digit cs \<noteq> []"
    by (auto simp: match_repeat_def s split: if_splits)
  then show ?thesis
    by (simp add: is_repeat_marker_def list_all_takeWhile)
qed

lemma valid_symbol_match_symbol:
  "valid_symbol_match s = Some (t, r) \<Longrightarrow> is_symbol t"
  unfolding valid_symbol_match_def is_symbol_def
  by (auto split: option.splits
      dest: match_chord_symbol match_repeat_symbol match_literal_splits)

lemma takeWhile_append_all:
  "list_all P xs \<Longrightarrow> takeWhile P (xs @ ys) = xs @ takeWhile P ys"
  by (induction xs) auto

lemma dropWhile_append_all:
  "list_all P xs \<Longrightarrow> dropWhile P (xs @ ys) = dropWhile P ys"
  by (induction xs) auto

lemma chord_tail_match:
  assumes "chord_tail u"
  shows "\<exists>body. u @ q = CHR '':'' # body @ q \<and> body \<noteq> [] \<and>
     takeWhile (\<lambda>c. \<not> py_isspace c) (body @ q) = body @ takeWhile (\<lambda>c. \<not> py_isspace c) q"
  using assms by (auto simp: chord_tail_def takeWhile_append_all split: list.splits)

lemma match_chord_complete:
  assumes "is_chord_symbol p"
  shows "\<exists>t r. match_chord (p @ q) = Some (t, r) \<and> prefix p t"
proof -
  obtain r u where p: "p = r # u" and r: "CHR ''A'' \<le> r" "r \<le> CHR ''G''"
    and u: "chord_tail u \<or> (\<exists>a v. u = a # v \<and> (a = CHR ''#'' \<or> a = CHR ''b'') \<and> chord_tail v)"
    using assms by (auto simp: is_chord_symbol_def split: list.splits)
  from u show ?thesis
  proof
    assume "chord_tail u"
    from chord_tail_match[OF this, of q] obtain body where
      b: "u @ q = CHR '':'' # body @ q" "body \<noteq> []"
      "takeWhile (\<lambda>c. \<not> py_isspace c) (body @ q) = body @ takeWhile (\<lambda>c. \<not> py_isspace c) q"
      by blast
    then have u': "u = CHR '':'' # body" by simp
    show ?thesis
      using r b by (simp add: match_chord_def p u' Let_def)
  next
    assume "\<exists>a v. u = a # v \<and> (a = CHR ''#'' \<or> a = CHR ''b'') \<and> chord_tail v"
    then obtain a v where a: "u = a # v" "a = CHR ''#'' \<or> a = CHR ''b''" "chord_tail v" by blast
    from chord_tail_match[OF a(3), of q] obtain body where
      b: "v @ q = CHR '':'' # body @ q" "body \<noteq> []"
      "takeWhile (\<lambda>c. \<not> py_isspace c) (body @ q) = body @ takeWhile (\<lambda>c. \<not> py_isspace c) q"
      by blast
    then have v': "v = CHR '':'' # body" by simp
    show ?thesis
      using r b a(2) by (auto simp add: match_chord_def p a(1) v' Let_def)
  qed
qed

lemma match_chord_None_other:
  "s \<noteq> [] \<Longrightarrow> \<not> (CHR ''A'' \<le> hd s \<and> hd s \<le> CHR ''G'') \<Longrightarrow> match_chord s = None"
  by (cases s) (auto simp: match_chord_def)

lemma match_repeat_complete:
  assumes "is_repeat_marker p"
  shows "\<exists>t r. match_repeat (p @ q) = Some (t, r) \<and> prefix p t"
  using assms
  by (auto simp: is_repeat_marker_def match_repeat_def takeWhile_append_all split: list.splits)

lemma valid_symbol_match_complete:
  assumes "is_symbol p"
  shows "\<exists>t r. valid_symbol_match (p @ q) = Some (t, r) \<and> prefix p t"
proof -
  consider "is_chord_symbol p" | "p = ''*''" | "p = ''&pause''" | "is_repeat_marker p" | "p = ''N''"
    using assms by (auto simp: is_symbol_def)
  then show ?thesis
  proof cases
    case 1
    from match_chord_complete[OF this, of q] show ?thesis
      by (auto simp: valid_symbol_match_def)
  next
    case 2
    then show ?thesis
      by (simp add: valid_symbol_match_def match_chord_None_other match_literal_def startswith_def)
  next
    case 3
    then show ?thesis
      by (simp add: valid_symbol_match_def match_chord_None_other match_literal_def startswith_def)
  next
    case 4
    then have x: "hd (p @ q) = CHR ''x''" "p @ q \<noteq> []"
      by (auto simp: is_repeat_marker_def split: list.splits)
    then have "match_chord (p @ q) = None"
      by (intro match_chord_None_other) auto
    moreover have "match_literal ''*'' (p @ q) = None" "match_literal ''&pause'' (p @ q) = None"
      using x by (cases "p @ q"; simp add: match_literal_def startswith_def)+
    ultimately show ?thesis
      using match_repeat_complete[OF 4, of q] by (auto simp: valid_symbol_match_def)
  next
    case 5
    then show ?thesis
      by (simp add: valid_symbol_match_def match_chord_None_other match_literal_def startswith_def
          match_repeat_def)
  qed
qed

lemma tl_prefixes_nonempty: "q \<in> set (tl (prefixes r)) \<Longrightarrow> q \<noteq> []"
  by (cases r) auto

lemma symbol_prefix_of_match:
  assumes "valid_symbol_match s = Some (t, r)" "is_symbol p" "prefix p s"
  shows "prefix p t"
proof -
  obtain q where "s = p @ q" using assms(3) by (auto simp: prefix_def)
  with valid_symbol_match_complete[OF assms(2), of q] assms(1) show ?thesis by auto
qed

lemma longest_symbol_match:
  assumes "valid_symbol_match s = Some (t, r)"
  shows "longest_symbol s = Some t"
proof -
  have s: "s = t @ r" and t: "is_symbol t"
    using assms valid_symbol_match_splits valid_symbol_match_symbol by blast+
  have "filter is_symbol (map (\<lambda>q. t @ q) (tl (prefixes r))) = []"
  proof (rule ccontr)
    assume "filter is_symbol (map (\<lambda>q. t @ q) (tl (prefixes r))) \<noteq> []"
    then obtain q where q: "q \<in> set (tl (prefixes r))" "is_symbol (t @ q)"
      by (auto simp: filter_empty_conv)
    have "prefix q r" using q(1) by (metis in_set_prefixes list.set_sel(2) prefixes_not_Nil)
    then have "prefix (t @ q) s" by (simp add: s)
    then have "prefix (t @ q) t" using symbol_prefix_of_match[OF assms q(2)] by simp
    then have "q = []" by (auto simp: prefix_def)
    then show False using tl_prefixes_nonempty[OF q(1)] by simp
  qed
  then have f: "filter is_symbol (prefixes s) = filter is_symbol (prefixes t)"
    by (simp add: s prefixes_append)
  have "prefixes t = butlast (prefixes t) @ [t]"
    by (metis append_butlast_last_id last_prefixes prefixes_not_Nil)
  then have "filter is_symbol (prefixes t) = filter is_symbol (butlast (prefixes t)) @ [t]"
    using t by (metis filter.simps(1) filter.simps(2) filter_append)
  then show ?thesis by (simp add: longest_symbol_def f)
qed

lemma longest_symbol_no_match:
  assumes "valid_symbol_match s = None"
  shows "longest_symbol s = None"
proof -
  have "\<not> is_symbol p" if pre: "prefix p s" for p
  proof
    assume p: "is_symbol p"
    obtain q where "s = p @ q" using pre by (auto simp: prefix_def)
    with valid_symbol_match_complete[OF p, of q] assms show False by auto
  qed
  then have "filter is_symbol (prefixes s) = []"
    by (auto simp: filter_empty_conv)
  then show ?thesis by (simp add: longest_symbol_def)
qed

lemma findall_tokenize_spec: "findall s = tokenize_spec s"
proof (induction s rule: findall.induct)
  case 1
  show ?case by simp
next
  case (2 c cs)
  show ?case
  proof (cases "valid_symbol_match (c # cs)")
    case None
    then show ?thesis using "2.IH" longest_symbol_no_match[OF None] by simp
  next
    case (Some m)
    obtain t r where m: "m = (t, r)" by (cases m)
    have l: "longest_symbol (c # cs) = Some t"
      using longest_symbol_match Some m by simp
    have "c # cs = t @ r" using valid_symbol_match_splits Some m by blast
    then have "drop (length t) (c # cs) = r" by (metis append_eq_conv_conj)
    then show ?thesis using "2.IH"(2)[OF Some m[symmetric]] Some m l by simp
  qed
qed

lemma findall_symbols: "t \<in> set (findall s) \<Longrightarrow> is_symbol t"
proof (induction s rule: findall.induct)
  case 1
  then show ?case by simp
next
  case (2 c cs)
  then show ?case
    by (auto split: option.splits dest: valid_symbol_match_symbol)
qed

section \<open>Results that may be errors\<close>

lemma collect_Inr:
  "\<forall>x\<in>set xs. f x = Inr (g x) \<Longrightarrow> collect f xs = Inr (map g xs)"
  by (induction xs) auto

lemma collect_InrD:
  "collect f xs = Inr ys \<Longrightarrow> list_all2 (\<lambda>x r. f x = Inr r) xs ys"
  by (induction xs arbitrary: ys) (auto split: sum.splits)

lemma collect_total:
  "\<forall>x\<in>set xs. \<exists>r. f x = Inr r \<Longrightarrow> \<exists>ys. collect f xs = Inr ys"
  by (induction xs) auto

lemma collect_InlD:
  "collect f xs = Inl e \<Longrightarrow> \<exists>x\<in>set xs. f x = Inl e"
  by (induction xs) (auto split: sum.splits)

section \<open>The assembled sequences\<close>

lemma labelled_chords_fst:
  "labelled_chords it m = Inr p \<Longrightarrow> fst p = clean_labels (fst m)"
  by (auto simp: labelled_chords_def split: sum.splits)

lemma retained_sections_labels:
  assumes "retained_sections it salami = Inr kept"
  shows "map fst kept = retained_labels salami"
proof -
  from assms obtain ys where
    ys: "collect (labelled_chords it) (finditer_sections (split_char NL salami)) = Inr ys"
    and k: "kept = filter (\<lambda>x. fst x \<noteq> []) ys"
    by (auto simp: retained_sections_def split: sum.splits)
  have "list_all2 (\<lambda>m p. fst p = clean_labels (fst m))
      (finditer_sections (split_char NL salami)) ys"
    using collect_InrD[OF ys] labelled_chords_fst
    by (rule list_all2_mono) blast
  then have "map fst ys =
      map (\<lambda>m. clean_labels (fst m)) (finditer_sections (split_char NL salami))"
    by (induction rule: list_all2_induct) auto
  then have "filter (\<lambda>l. l \<noteq> []) (map fst ys) = retained_labels salami"
    by (simp only: retained_labels_def)
  moreover have "map fst (filter (\<lambda>x. fst x \<noteq> []) ys) = filter (\<lambda>l. l \<noteq> []) (map fst ys)"
    by (simp add: filter_map comp_def)
  ultimately show ?thesis by (simp only: k)
qed

lemma assemble_eq:
  "assemble kept cs ls =
     (cs @ concat (map snd kept),
      ls @ concat (map (\<lambda>x. replicate (nat (int (length (snd x)) - 1)) (fst x) @ [''eos'']) kept))"
  by (induction kept cs ls rule: assemble.induct) auto

lemma process_salami_Inr:
  assumes "process_salami it fname salami = Inr s"
  shows "\<exists>kept. retained_sections it salami = Inr kept \<and> kept \<noteq> [] \<and>
     chord_seq s = concat (map snd kept) \<and>
     label_seq s =
       concat (map (\<lambda>x. replicate (nat (int (length (snd x)) - 1)) (fst x) @ [''eos'']) kept)"
proof -
  from assms obtain kept where k: "retained_sections it salami = Inr kept"
    by (auto simp: process_salami_def split: sum.splits if_splits)
  from assms have "kept \<noteq> []"
    by (auto simp: process_salami_def k split: sum.splits if_splits list.splits)
  moreover from assms have "s = \<lparr>headers = headers s, chord_seq = fst (assemble kept [] []),
      label_seq = snd (assemble kept [] [])\<rparr>"
    by (auto simp: process_salami_def k split: sum.splits if_splits list.splits)
  then have "chord_seq s = fst (assemble kept [] [])" "label_seq s = snd (assemble kept [] [])"
    by (metis song.select_convs(2), metis song.select_convs(3))
  ultimately show ?thesis using k by (simp add: assemble_eq)
qed

lemma nat_int_pred: "nat (int n - 1) = n - 1"
  by arith

lemma length_label_run:
  "length (concat (map (\<lambda>x. replicate (nat (int (length (snd x)) - 1)) (fst x) @ [''eos'']) kept)) =
   length (concat (map snd kept)) + length (filter (\<lambda>x. snd x = []) kept)"
proof (induction kept)
  case Nil
  show ?case by simp
next
  case (Cons x kept)
  have "Suc (length (snd x) - 1) = length (snd x) + (if snd x = [] then 1 else 0)"
    by (cases "snd x") auto
  then show ?case using Cons by (simp add: nat_int_pred)
qed

section \<open>Label Normalizer: properties\<close>

lemma startswith_prefix: "startswith s p \<longleftrightarrow> prefix p s"
  unfolding startswith_def
  by (metis append_eq_conv_conj prefix_def take_is_prefix)

lemma cleaned_eq: "filter (\<lambda>c. c \<noteq> CHR '' '') (filter (\<lambda>c. c \<noteq> CHR ''-'') l) = cleaned l"
  by (simp add: cleaned_def conj_commute)

lemma clean_labels_unfold:
  "clean_labels l = (let c = fold (\<lambda>prefix label. if startswith label prefix then prefix else label)
                    label_prefixes (cleaned l) in if c = ''modulation'' then ''keychange'' else c)"
  unfolding clean_labels_def Let_def cleaned_eq ..

lemma prefixes_incomparable:
  "p \<in> set label_prefixes \<Longrightarrow> q \<in> set label_prefixes \<Longrightarrow> prefix p q \<Longrightarrow> p = q"
  by (auto simp: label_prefixes_def)

lemma at_most_one:
  assumes "p \<in> set label_prefixes" "q \<in> set label_prefixes" "startswith c p" "startswith c q"
  shows "p = q"
proof -
  have "prefix p c" "prefix q c" using assms by (simp_all add: startswith_prefix)
  then have "prefix p q \<or> prefix q p" by (rule prefix_same_cases[THEN disjE]) auto
  then show ?thesis using assms(1,2) prefixes_incomparable by blast
qed

lemma fold_none:
  "\<forall>p\<in>set ps. \<not> startswith c p \<Longrightarrow>
    fold (\<lambda>prefix label. if startswith label prefix then prefix else label) ps c = c"
  by (induction ps) auto

lemma fold_fix:
  "p \<in> set label_prefixes \<Longrightarrow> set ps \<subseteq> set label_prefixes \<Longrightarrow>
    fold (\<lambda>prefix label. if startswith label prefix then prefix else label) ps p = p"
proof (induction ps)
  case Nil then show ?case by simp
next
  case (Cons q ps)
  have "startswith p q \<Longrightarrow> q = p"
    using Cons.prems prefixes_incomparable[of q p] by (simp add: startswith_prefix)
  then show ?case using Cons by auto
qed

lemma fold_hit:
  "p \<in> set ps \<Longrightarrow> set ps \<subseteq> set label_prefixes \<Longrightarrow> startswith c p \<Longrightarrow>
    fold (\<lambda>prefix label. if startswith label prefix then prefix else label) ps c = p"
proof (induction ps arbitrary: c)
  case Nil then show ?case by simp
next
  case (Cons q ps)
  show ?case
  proof (cases "startswith c q")
    case True
    then have "q = p" using at_most_one[of q p c] Cons.prems by auto
    then show ?thesis using True Cons.prems fold_fix[of p ps] by simp
  next
    case False
    then have "p \<in> set ps" using Cons.prems by auto
    then show ?thesis using False Cons by simp
  qed
qed

lemma clean_labels_examples:
  "clean_labels ''chorus-2'' = ''chorus''" "clean_labels ''verse'' = ''verse''"
  "clean_labels ''modulation'' = ''keychange''" "clean_labels ''outro'' = ''outro''"
  by code_simp+

text \<open>
  C5. \<^verbatim>\<open>clean_labels\<close> deletes every hyphen and space; then, if the cleaned label
  starts with one of the prefixes trans, verse, chorus, prechorus, intro, instrumental,
  spoken, the result is that prefix; otherwise the result is the cleaned label, with
  modulation rewritten to keychange. So chorus-2 gives chorus, verse gives verse,
  modulation gives keychange and outro stays outro.
\<close>

theorem clean_labels_spec:
  "(\<forall>p\<in>set label_prefixes. startswith (cleaned l) p \<longrightarrow> clean_labels l = p) \<and>
   ((\<forall>p\<in>set label_prefixes. \<not> startswith (cleaned l) p) \<longrightarrow>
      clean_labels l = (if cleaned l = ''modulation'' then ''keychange'' else cleaned l)) \<and>
   clean_labels ''chorus-2'' = ''chorus'' \<and> clean_labels ''verse'' = ''verse'' \<and>
   clean_labels ''modulation'' = ''keychange'' \<and> clean_labels ''outro'' = ''outro''"
proof (intro conjI ballI impI)
  fix p assume p: "p \<in> set label_prefixes" "startswith (cleaned l) p"
  have "fold (\<lambda>prefix label. if startswith label prefix then prefix else label)
          label_prefixes (cleaned l) = p"
    using fold_hit[OF p(1) _ p(2)] by simp
  moreover have "p \<noteq> ''modulation''" using p(1) by (auto simp: label_prefixes_def)
  ultimately show "clean_labels l = p" by (simp add: clean_labels_unfold)
next
  assume "\<forall>p\<in>set label_prefixes. \<not> startswith (cleaned l) p"
  then show "clean_labels l = (if cleaned l = ''modulation'' then ''keychange'' else cleaned l)"
    by (simp add: clean_labels_unfold fold_none)
qed (rule clean_labels_examples)+

theorem clean_labels_spec_witness:
  "''chorus'' \<in> set label_prefixes \<and> startswith (cleaned ''chorus-2'') ''chorus'' \<and>
   clean_labels ''chorus-2'' = ''chorus''"
proof -
  have a: "''chorus'' \<in> set label_prefixes" by code_simp
  have b: "startswith (cleaned ''chorus-2'') ''chorus''" by code_simp
  from clean_labels_spec[of "''chorus-2''"] a b show ?thesis by blast
qed

section \<open>Repeat Resolver: properties\<close>

lemma le_div_of_mult_le:
  fixes a n m :: int
  assumes "0 < n" "a * n \<le> m"
  shows "a \<le> m div n"
proof -
  have "(a * n) div n \<le> m div n" using assms by (intro zdiv_mono1) auto
  then show ?thesis using assms(1) by simp
qed

lemma list_repeat_fits:
  assumes "0 \<le> n" "n \<le> maxsize it" "int (length a) * n \<le> capacity it"
    "int (length a) * n \<le> maxsize it"
  shows "list_repeat it a n = Inr (concat (replicate (nat n) a))"
proof (cases "a = [] \<or> n \<le> 0")
  case True
  then have "concat (replicate (nat n) a) = []" using assms(1) by auto
  then show ?thesis using True assms(1,2) by (simp add: list_repeat_def)
next
  case False
  then have n: "0 < n" by simp
  have "int (length a) \<le> maxsize it div n"
    using le_div_of_mult_le[OF n assms(4)] .
  then show ?thesis using False assms by (simp add: list_repeat_def)
qed

lemma resolve_repeats_marker:
  assumes "x \<noteq> []" "last x = CHR ''x'' # ds" "ds \<noteq> []" "\<forall>d\<in>set ds. is_digit d"
  shows "resolve_repeats it x =
     (if over_digit_limit it (length ds) then Inl BadRepeatCount
      else list_repeat it (butlast x) (digits_value ds))"
proof -
  have "startswith (last x) ''x''" using assms(2) by (simp add: startswith_def)
  moreover have "py_int it (drop 1 (last x)) =
      (if over_digit_limit it (length ds) then None else Some (digits_value ds))"
    using py_int_digits[OF assms(3,4)] assms(2) by simp
  ultimately show ?thesis using assms(1) by (simp add: resolve_repeats_def)
qed

lemma digits_value_nonneg: "\<forall>d\<in>set ds. is_digit d \<Longrightarrow> 0 \<le> digits_value ds"
proof -
  have "\<forall>d\<in>set ds. is_digit d \<Longrightarrow> 0 \<le> a \<Longrightarrow> 0 \<le> foldl (\<lambda>a d. 10 * a + digit_val d) a ds" for a
  proof (induction ds arbitrary: a)
    case Nil
    then show ?case by simp
  next
    case (Cons d ds)
    have "48 \<le> (of_char d :: nat)" using Cons.prems(1)
      by (simp add: is_digit_def less_eq_char_def)
    moreover have "(of_char d :: int) = int (of_char d)" by (simp only: of_nat_of_char)
    ultimately have "0 \<le> digit_val d" unfolding digit_val_def by linarith
    then show ?case using Cons by simp
  qed
  then show "\<forall>d\<in>set ds. is_digit d \<Longrightarrow> 0 \<le> digits_value ds"
    by (simp add: digits_value_def)
qed

lemma resolve_repeats_examples:
  "resolve_repeats interp64 [''C:maj'', ''D:min'', ''x3''] =
      Inr [''C:maj'', ''D:min'', ''C:maj'', ''D:min'', ''C:maj'', ''D:min'']"
  "resolve_repeats interp64 [''C:maj'', ''D:min'', ''x1''] = Inr [''C:maj'', ''D:min'']"
  "resolve_repeats interp64 [''C:maj'', ''x0''] = Inr []"
  by code_simp+

text \<open>
C4, as amended. Where the last token of a line is \<^verbatim>\<open>x\<close> followed by one or more digits,
  and the interpreter reads the digits (they are within the digit limit of \<^verbatim>\<open>int\<close>), their
  value \<open>n\<close> is at most \<^verbatim>\<open>sys.maxsize\<close>, and a list of \<open>n\<close> times the remaining tokens can
  be built, \<^verbatim>\<open>resolve_repeats\<close> removes the marker and returns \<open>n\<close> concatenated copies of
  the remaining tokens. Otherwise it raises: \<^verbatim>\<open>ValueError\<close> beyond the digit limit,
  \<^verbatim>\<open>OverflowError\<close> for a count beyond \<^verbatim>\<open>sys.maxsize\<close>, \<^verbatim>\<open>MemoryError\<close> for a list that
  is too long. So C:maj D:min x3 gives C:maj D:min three times, x1 only removes the
  marker, and x0 gives the empty list.
\<close>

theorem resolve_repeats_amended:
  "(\<forall>x ds. x \<noteq> [] \<and> last x = CHR ''x'' # ds \<and> ds \<noteq> [] \<and> (\<forall>d\<in>set ds. is_digit d) \<and>
       \<not> over_digit_limit it (length ds) \<and> digits_value ds \<le> maxsize it \<and>
       int (length (butlast x)) * digits_value ds \<le> capacity it \<and>
       int (length (butlast x)) * digits_value ds \<le> maxsize it \<longrightarrow>
      resolve_repeats it x = Inr (concat (replicate (nat (digits_value ds)) (butlast x)))) \<and>
   (\<forall>x ds. x \<noteq> [] \<and> last x = CHR ''x'' # ds \<and> ds \<noteq> [] \<and> (\<forall>d\<in>set ds. is_digit d) \<and>
       over_digit_limit it (length ds) \<longrightarrow>
      resolve_repeats it x = Inl BadRepeatCount) \<and>
   (\<forall>x ds. x \<noteq> [] \<and> last x = CHR ''x'' # ds \<and> ds \<noteq> [] \<and> (\<forall>d\<in>set ds. is_digit d) \<and>
       \<not> over_digit_limit it (length ds) \<and> digits_value ds > maxsize it \<longrightarrow>
      resolve_repeats it x = Inl RepeatOverflow) \<and>
   (\<forall>x ds. x \<noteq> [] \<and> last x = CHR ''x'' # ds \<and> ds \<noteq> [] \<and> (\<forall>d\<in>set ds. is_digit d) \<and>
       \<not> over_digit_limit it (length ds) \<and> digits_value ds \<le> maxsize it \<and>
       (int (length (butlast x)) * digits_value ds > capacity it \<or>
        int (length (butlast x)) * digits_value ds > maxsize it) \<and> 0 \<le> capacity it \<longrightarrow>
      resolve_repeats it x = Inl OutOfMemory) \<and>
   resolve_repeats interp64 [''C:maj'', ''D:min'', ''x3''] =
      Inr [''C:maj'', ''D:min'', ''C:maj'', ''D:min'', ''C:maj'', ''D:min''] \<and>
   resolve_repeats interp64 [''C:maj'', ''D:min'', ''x1''] = Inr [''C:maj'', ''D:min''] \<and>
   resolve_repeats interp64 [''C:maj'', ''x0''] = Inr []"
proof (intro conjI allI impI)
  fix x ds
  assume h: "x \<noteq> [] \<and> last x = CHR ''x'' # ds \<and> ds \<noteq> [] \<and> (\<forall>d\<in>set ds. is_digit d) \<and>
       \<not> over_digit_limit it (length ds) \<and> digits_value ds \<le> maxsize it \<and>
       int (length (butlast x)) * digits_value ds \<le> capacity it \<and>
       int (length (butlast x)) * digits_value ds \<le> maxsize it"
  then have "resolve_repeats it x = list_repeat it (butlast x) (digits_value ds)"
    using resolve_repeats_marker[of x ds it] by simp
  moreover have "0 \<le> digits_value ds" using h digits_value_nonneg by blast
  ultimately show "resolve_repeats it x =
      Inr (concat (replicate (nat (digits_value ds)) (butlast x)))"
    using list_repeat_fits[of "digits_value ds" it "butlast x"] h by simp
next
  fix x ds
  assume h: "x \<noteq> [] \<and> last x = CHR ''x'' # ds \<and> ds \<noteq> [] \<and> (\<forall>d\<in>set ds. is_digit d) \<and>
       over_digit_limit it (length ds)"
  then show "resolve_repeats it x = Inl BadRepeatCount"
    using resolve_repeats_marker[of x ds it] by simp
next
  fix x ds
  assume h: "x \<noteq> [] \<and> last x = CHR ''x'' # ds \<and> ds \<noteq> [] \<and> (\<forall>d\<in>set ds. is_digit d) \<and>
       \<not> over_digit_limit it (length ds) \<and> digits_value ds > maxsize it"
  then show "resolve_repeats it x = Inl RepeatOverflow"
    using resolve_repeats_marker[of x ds it] by (simp add: list_repeat_def)
next
  fix x ds
  assume h: "x \<noteq> [] \<and> last x = CHR ''x'' # ds \<and> ds \<noteq> [] \<and> (\<forall>d\<in>set ds. is_digit d) \<and>
       \<not> over_digit_limit it (length ds) \<and> digits_value ds \<le> maxsize it \<and>
       (int (length (butlast x)) * digits_value ds > capacity it \<or>
        int (length (butlast x)) * digits_value ds > maxsize it) \<and> 0 \<le> capacity it"
  have n: "0 \<le> digits_value ds" using h digits_value_nonneg by blast
  have r: "resolve_repeats it x = list_repeat it (butlast x) (digits_value ds)"
    using h resolve_repeats_marker[of x ds it] by simp
  have m: "0 \<le> maxsize it" using h n by linarith
  have pos: "0 < int (length (butlast x)) * digits_value ds" using h m by linarith
  have ne: "butlast x \<noteq> []" "0 < digits_value ds"
  proof -
    show "butlast x \<noteq> []"
    proof
      assume "butlast x = []"
      then have "length (butlast x) = 0" by (simp only: list.size)
      then have "int (length (butlast x)) * digits_value ds = 0" by (simp only: of_nat_0 mult_zero_left)
      then show False using pos by (simp only: less_irrefl)
    qed
    show "0 < digits_value ds"
    proof (rule ccontr)
      assume "\<not> 0 < digits_value ds"
      then have "digits_value ds = 0" using n by simp
      then have "int (length (butlast x)) * digits_value ds = 0" by (simp only: mult_zero_right)
      then show False using pos by (simp only: less_irrefl)
    qed
  qed
  have "int (length (butlast x)) > maxsize it div digits_value ds \<or>
      int (length (butlast x)) * digits_value ds > capacity it"
  proof (cases "int (length (butlast x)) * digits_value ds > capacity it")
    case True
    then show ?thesis by simp
  next
    case False
    then have big: "int (length (butlast x)) * digits_value ds > maxsize it" using h by blast
    have "\<not> int (length (butlast x)) \<le> maxsize it div digits_value ds"
    proof
      assume "int (length (butlast x)) \<le> maxsize it div digits_value ds"
      then have "int (length (butlast x)) * digits_value ds \<le>
          (maxsize it div digits_value ds) * digits_value ds"
        using ne(2) by (simp add: mult_right_mono)
      also have "\<dots> \<le> maxsize it"
        using div_mult_mod_eq[of "maxsize it" "digits_value ds"]
          pos_mod_sign[OF ne(2), of "maxsize it"] by linarith
      finally show False using big by simp
    qed
    then show ?thesis by simp
  qed
  then show "resolve_repeats it x = Inl OutOfMemory"
    using r ne n h by (simp add: list_repeat_def)
qed (rule resolve_repeats_examples)+

theorem resolve_repeats_amended_witness:
  "last [''A:maj'', ''x12''] = CHR ''x'' # ''12'' \<and> digits_value ''12'' = 12 \<and>
   resolve_repeats interp64 [''A:maj'', ''x12''] = Inr (replicate 12 ''A:maj'')"
proof -
  have a: "[''A:maj'', ''x12''] \<noteq> [] \<and> last [''A:maj'', ''x12''] = CHR ''x'' # ''12'' \<and>
      ''12'' \<noteq> [] \<and> (\<forall>d\<in>set ''12''. is_digit d) \<and>
      \<not> over_digit_limit interp64 (length ''12'') \<and> digits_value ''12'' \<le> maxsize interp64 \<and>
      int (length (butlast [''A:maj'', ''x12''])) * digits_value ''12'' \<le> capacity interp64 \<and>
      int (length (butlast [''A:maj'', ''x12''])) * digits_value ''12'' \<le> maxsize interp64"
    by code_simp
  have b: "digits_value ''12'' = 12" by code_simp
  have c: "concat (replicate (nat 12) (butlast [''A:maj'', ''x12''])) = replicate 12 ''A:maj''"
    by code_simp
  from resolve_repeats_amended[of interp64] a
  have "resolve_repeats interp64 [''A:maj'', ''x12''] =
      Inr (concat (replicate (nat (digits_value ''12'')) (butlast [''A:maj'', ''x12''])))"
    by blast
  then have "resolve_repeats interp64 [''A:maj'', ''x12''] = Inr (replicate 12 ''A:maj'')"
    unfolding b c .
  then show ?thesis using a b by simp
qed

text \<open>
  Without the bounds the statement fails: the count of this marker is no index, and the
  code raises \<^verbatim>\<open>OverflowError\<close> at line 139; a million copies of two tokens do not fit
  where a million elements can be built.
\<close>

theorem resolve_repeats_counterexample:
  "is_repeat_marker ''x99999999999999999999'' \<and>
   resolve_repeats interp64 [''C:maj'', ''x99999999999999999999''] = Inl RepeatOverflow \<and>
   resolve_repeats interp64 [''C:maj'', ''D:min'', ''x1000000''] = Inl OutOfMemory"
  by code_simp

section \<open>Sequence Assembler: the length of the two sequences\<close>

text \<open>
  C1. The specification states \<open>length (chord_seq s) = length (label_seq s)\<close> for every
  parsed song. In the code, \<open>label_seq\<close> is longer than \<open>chord_seq\<close> by one entry for
  every retained section that has no token: the loop appends \<^verbatim>\<open>eos\<close> for it and no
  chord. The two lengths are equal exactly when no retained section is empty.
\<close>

theorem length_invariant_defect:
  assumes "process_salami it fname salami = Inr s"
  shows "\<exists>kept. retained_sections it salami = Inr kept \<and>
     length (label_seq s) = length (chord_seq s) + length (filter (\<lambda>x. snd x = []) kept) \<and>
     (length (chord_seq s) = length (label_seq s) \<longleftrightarrow> (\<forall>x\<in>set kept. snd x \<noteq> []))"
proof -
  from process_salami_Inr[OF assms] obtain kept where
    k: "retained_sections it salami = Inr kept"
    and c: "chord_seq s = concat (map snd kept)"
    and b: "label_seq s =
      concat (map (\<lambda>x. replicate (nat (int (length (snd x)) - 1)) (fst x) @ [''eos'']) kept)"
    by blast
  have l: "length (label_seq s) =
      length (chord_seq s) + length (filter (\<lambda>x. snd x = []) kept)"
    unfolding b c by (rule length_label_run)
  have "length (filter (\<lambda>x. snd x = []) kept) = 0 \<longleftrightarrow> (\<forall>x\<in>set kept. snd x \<noteq> [])"
    by (simp add: filter_empty_conv)
  then show ?thesis using k l by auto
qed

theorem length_invariant_defect_witness:
  "process_salami interp64 ''f'' (''0'' @ [TAB] @ ''verse,'' @ [NL] @ ''1'' @ [TAB] @ ''end'' @ [NL]) =
     Inr \<lparr>headers = [(''url'', ''f'')], chord_seq = [], label_seq = [''eos'']\<rparr> \<and>
   retained_sections interp64 (''0'' @ [TAB] @ ''verse,'' @ [NL] @ ''1'' @ [TAB] @ ''end'' @ [NL]) =
     Inr [(''verse'', [])] \<and>
   length [''eos''] = length ([] :: string list) + length (filter (\<lambda>x. snd x = []) [(''verse'', [] :: string list)])"
proof -
  have a: "process_salami interp64 ''f'' (''0'' @ [TAB] @ ''verse,'' @ [NL] @ ''1'' @ [TAB] @ ''end'' @ [NL]) =
     Inr \<lparr>headers = [(''url'', ''f'')], chord_seq = [], label_seq = [''eos'']\<rparr>"
    by code_simp
  have b: "retained_sections interp64 (''0'' @ [TAB] @ ''verse,'' @ [NL] @ ''1'' @ [TAB] @ ''end'' @ [NL]) =
     Inr [(''verse'', [])]"
    by code_simp
  from length_invariant_defect[OF a] b show ?thesis using a by simp
qed

section \<open>Sequence Assembler: a section without tokens\<close>

text \<open>
  C2. The specification states that a retained section with no token contributes
  nothing to either sequence. In the code, the section of this document is reduced to
  no token by the marker \<^verbatim>\<open>x0\<close>, it is retained, and it contributes \<^verbatim>\<open>eos\<close> to
  \<open>label_seq\<close> and nothing to \<open>chord_seq\<close>.
\<close>

theorem empty_section_emits_eos:
  "retained_sections interp64 (''0'' @ [TAB] @ ''verse, C:maj x0'' @ [NL] @ ''1'' @ [TAB] @ ''end'' @ [NL]) =
     Inr [(''verse'', [])] \<and>
   process_salami interp64 ''f'' (''0'' @ [TAB] @ ''verse, C:maj x0'' @ [NL] @ ''1'' @ [TAB] @ ''end'' @ [NL]) =
     Inr \<lparr>headers = [(''url'', ''f'')], chord_seq = [], label_seq = [''eos'']\<rparr>"
  by code_simp

section \<open>Section Segmenter: properties\<close>

lemma finditer_None:
  "\<forall>l\<in>set pre. section_label l = None \<Longrightarrow>
   finditer_sections (pre @ rest) = finditer_sections rest"
  by (induction pre) auto

lemma finditer_match:
  assumes "section_label h = Some lab" "\<forall>l\<in>set body. \<not> section_like l" "section_like t"
  shows "finditer_sections (h # body @ t # post) =
     (lab, concat (map (\<lambda>x. x @ [NL]) (h # body))) # finditer_sections (t # post)"
proof -
  have "takeWhile (\<lambda>x. \<not> section_like x) (body @ t # post) = body"
    using assms(2,3) by (simp add: takeWhile_append2)
  moreover have "dropWhile (\<lambda>x. \<not> section_like x) (body @ t # post) = t # post"
    using assms(2,3) by (simp add: dropWhile_append2)
  ultimately show ?thesis using assms(1) by simp
qed

lemma finditer_no_end:
  assumes "\<forall>l\<in>set rest. \<not> section_like l"
  shows "finditer_sections rest = []"
  using assms
proof (induction rest)
  case Nil
  show ?case by simp
next
  case (Cons l rest)
  then have "dropWhile (\<lambda>x. \<not> section_like x) rest = []" by simp
  then show ?case using Cons by (auto split: option.splits)
qed

lemma split_char_lines:
  "\<forall>l\<in>set ls. NL \<notin> set l \<Longrightarrow>
   split_char NL (concat (map (\<lambda>x. x @ [NL]) ls)) = ls @ ['''']"
proof (induction ls)
  case Nil
  show ?case by simp
next
  case (Cons l ls)
  have "NL \<notin> set l \<Longrightarrow> split_char NL (l @ NL # r) = l # split_char NL r" for r
    by (induction l) (auto split: list.splits)
  then show ?case using Cons by simp
qed

lemma map_filter_append: "List.map_filter f (xs @ ys) = List.map_filter f xs @ List.map_filter f ys"
  by (simp add: List.map_filter_def)

lemma subseq_map_filter_dropWhile:
  "subseq (List.map_filter f (dropWhile P xs)) (List.map_filter f xs)"
proof -
  have "List.map_filter f xs =
      List.map_filter f (takeWhile P xs) @ List.map_filter f (dropWhile P xs)"
    by (metis map_filter_append takeWhile_dropWhile_id)
  then show ?thesis by (metis list_emb_append2 subseq_order.order_refl)
qed

lemma finditer_order:
  "subseq (map fst (finditer_sections ls)) (List.map_filter section_label ls)"
proof (induction ls rule: finditer_sections.induct)
  case 1
  show ?case by (simp add: List.map_filter_simps)
next
  case (2 l ls)
  show ?case
  proof (cases "section_label l")
    case None
    then show ?thesis using "2.IH"(1) by (simp add: List.map_filter_simps)
  next
    case (Some lab)
    show ?thesis
    proof (cases "dropWhile (\<lambda>x. \<not> section_like x) ls = []")
      case True
      have "subseq (map fst (finditer_sections ls)) (lab # List.map_filter section_label ls)"
        using "2.IH"(2)[OF Some True] by (rule list_emb_Cons)
      then show ?thesis using Some True by (simp add: List.map_filter_simps)
    next
      case False
      have "subseq (map fst (finditer_sections (dropWhile (\<lambda>x. \<not> section_like x) ls)))
          (List.map_filter section_label ls)"
        using "2.IH"(3)[OF Some False] subseq_map_filter_dropWhile
        by (metis subseq_order.order_trans)
      then show ?thesis using Some False by (auto simp: List.map_filter_simps)
    qed
  qed
qed

text \<open>
  C3, as amended. A section starts at a section-starting line (a line with a tab after
  which, past an optional variant marker, a label of lowercase letters and hyphens is
  followed by a comma) and its text is that line and every line after it up to, and
  without, the next section-like line: a line with a tab after which, past an optional
  variant marker, a lowercase letter or a hyphen stands, with or without a comma. The
  search for the next section goes on at that line. A section-starting line after which
  no section-like line follows gives no section, so the last section-starting line of a
  document is a section only when such a line follows it. Split at the newlines, the text
  of a section is its lines and one empty string. The sections are returned in the order
  of the document.
\<close>

theorem section_segmenter_amended:
  "(\<forall>pre h body t post lab.
      (\<forall>l\<in>set pre. section_label l = None) \<and> section_label h = Some lab \<and>
      (\<forall>l\<in>set body. \<not> section_like l) \<and> section_like t \<longrightarrow>
      finditer_sections (pre @ h # body @ t # post) =
        (lab, concat (map (\<lambda>x. x @ [NL]) (h # body))) # finditer_sections (t # post)) \<and>
   (\<forall>pre h rest.
      (\<forall>l\<in>set pre. section_label l = None) \<and> (\<forall>l\<in>set rest. \<not> section_like l) \<longrightarrow>
      finditer_sections (pre @ h # rest) = []) \<and>
   (\<forall>ls. (\<forall>l\<in>set ls. NL \<notin> set l) \<longrightarrow>
      split_char NL (concat (map (\<lambda>x. x @ [NL]) ls)) = ls @ [[]]) \<and>
   subseq (map fst (finditer_sections lines)) (List.map_filter section_label lines)"
proof (intro conjI allI impI)
  fix pre h body t post lab
  assume a: "(\<forall>l\<in>set pre. section_label l = None) \<and> section_label h = Some lab \<and>
      (\<forall>l\<in>set body. \<not> section_like l) \<and> section_like t"
  then have "finditer_sections (pre @ h # body @ t # post) =
      finditer_sections (h # body @ t # post)"
    using finditer_None by blast
  then show "finditer_sections (pre @ h # body @ t # post) =
        (lab, concat (map (\<lambda>x. x @ [NL]) (h # body))) # finditer_sections (t # post)"
    using finditer_match a by metis
next
  fix pre :: "string list" and h rest
  assume a: "(\<forall>l\<in>set pre. section_label l = None) \<and> (\<forall>l\<in>set rest. \<not> section_like l)"
  then have d: "dropWhile (\<lambda>x. \<not> section_like x) rest = []" by simp
  have "finditer_sections (h # rest) = []"
    using d finditer_no_end[of rest] a by (auto split: option.splits)
  then show "finditer_sections (pre @ h # rest) = []"
    using finditer_None[of pre "h # rest"] a by simp
next
  fix ls :: "string list"
  assume "\<forall>l\<in>set ls. NL \<notin> set l"
  then show "split_char NL (concat (map (\<lambda>x. x @ [NL]) ls)) = ls @ [[]]"
    using split_char_lines by simp
next
  show "subseq (map fst (finditer_sections lines)) (List.map_filter section_label lines)"
    by (rule finditer_order)
qed

theorem section_segmenter_amended_witness:
  "section_label (''0'' @ [TAB] @ ''A, verse, | A:maj |'') = Some ''verse'' \<and>
   section_like (''2'' @ [TAB] @ ''silence'') \<and>
   finditer_sections [''# title: t'', ''0'' @ [TAB] @ ''A, verse, | A:maj |'', [TAB] @ ''| B:min |'',
       ''2'' @ [TAB] @ ''silence'', ''3'' @ [TAB] @ ''end'', ''''] =
     [(''verse'', ''0'' @ [TAB] @ ''A, verse, | A:maj |'' @ [NL] @ [TAB] @ ''| B:min |'' @ [NL])]"
proof -
  let ?h = "''0'' @ [TAB] @ ''A, verse, | A:maj |''"
  let ?b = "[TAB] @ ''| B:min |''"
  let ?t = "''2'' @ [TAB] @ ''silence''"
  let ?post = "[''3'' @ [TAB] @ ''end'', '''']"
  have a: "(\<forall>l\<in>set [''# title: t'']. section_label l = None) \<and> section_label ?h = Some ''verse'' \<and>
      (\<forall>l\<in>set [?b]. \<not> section_like l) \<and> section_like ?t"
    by code_simp
  have r: "finditer_sections (?t # ?post) = []" by code_simp
  have c: "concat (map (\<lambda>x. x @ [NL]) (?h # [?b])) = ?h @ [NL] @ ?b @ [NL]" by simp
  from section_segmenter_amended a
  have "finditer_sections ([''# title: t''] @ ?h # [?b] @ ?t # ?post) =
      (''verse'', concat (map (\<lambda>x. x @ [NL]) (?h # [?b]))) # finditer_sections (?t # ?post)"
    by blast
  then have "finditer_sections ([''# title: t''] @ ?h # [?b] @ ?t # ?post) =
      [(''verse'', ?h @ [NL] @ ?b @ [NL])]"
    unfolding r c .
  then show ?thesis using a by simp
qed

text \<open>
  The specification's sentence fails in three ways. A document whose last
  section-starting line is followed by no section-like line has no section at all, and
  its parse raises. And in the second document the section \<^verbatim>\<open>verse\<close> holds its own
  starting line and ends before the line \<^verbatim>\<open>silence\<close>, which starts no section, so the
  line after \<^verbatim>\<open>silence\<close> is in no section.
\<close>

theorem section_segmenter_counterexample:
  "section_label (''0'' @ [TAB] @ ''verse, C:maj'') = Some ''verse'' \<and>
   finditer_sections (split_char NL (''0'' @ [TAB] @ ''verse, C:maj'' @ [NL])) = [] \<and>
   process_salami interp64 ''f'' (''0'' @ [TAB] @ ''verse, C:maj'' @ [NL]) = Inl NoSections \<and>
   section_label (''2'' @ [TAB] @ ''silence'') = None \<and>
   finditer_sections (split_char NL
      (''0'' @ [TAB] @ ''verse, A:maj'' @ [NL] @ ''1'' @ [TAB] @ ''B:min'' @ [NL] @
       ''2'' @ [TAB] @ ''silence'' @ [NL] @ ''3'' @ [TAB] @ ''C:maj'' @ [NL] @
       ''4'' @ [TAB] @ ''chorus, D:maj'' @ [NL] @ ''5'' @ [TAB] @ ''end'' @ [NL])) =
     [(''verse'', ''0'' @ [TAB] @ ''verse, A:maj'' @ [NL] @ ''1'' @ [TAB] @ ''B:min'' @ [NL]),
      (''chorus'', ''4'' @ [TAB] @ ''chorus, D:maj'' @ [NL])]"
  by code_simp

section \<open>Header Extractor: properties\<close>

lemma takeWhile_dropWhile_commute:
  assumes "\<And>c. P c \<Longrightarrow> Q c"
  shows "takeWhile Q (dropWhile P l) = dropWhile P (takeWhile Q l)"
  using assms by (induction l) auto

lemma dropWhile_dropWhile_absorb:
  assumes "\<And>c. P c \<Longrightarrow> Q c"
  shows "dropWhile Q (dropWhile P l) = dropWhile Q l"
  using assms by (induction l) auto

lemma split_once_header:
  "split_once (CHR '':'') (lstrip_chars ''# '' l) =
     (if CHR '':'' \<in> set l
      then [header_key l, drop 1 (dropWhile (\<lambda>c. c \<noteq> CHR '':'') l)]
      else [lstrip_chars ''# '' l])"
proof -
  have P: "\<And>c. c \<in> set ''# '' \<Longrightarrow> c \<noteq> CHR '':''" by auto
  have m: "CHR '':'' \<in> set (lstrip_chars ''# '' l) \<longleftrightarrow> CHR '':'' \<in> set l"
    unfolding lstrip_chars_def
    by (induction l) auto
  show ?thesis
    unfolding split_once_def m header_key_def
    using takeWhile_dropWhile_commute[of "\<lambda>c. c \<in> set ''# ''" "\<lambda>c. c \<noteq> CHR '':''" l, OF P]
      dropWhile_dropWhile_absorb[of "\<lambda>c. c \<in> set ''# ''" "\<lambda>c. c \<noteq> CHR '':''" l, OF P]
    by (simp add: lstrip_chars_def)
qed

lemma dict_of_headers_step:
  "dict_of_headers (x # xs) d =
     (if CHR '':'' \<in> set x
      then dict_of_headers xs (AList.update (header_key x) (header_value x) d)
      else Inl HeaderUnpack)"
  by (simp add: split_once_header header_value_def)

lemma dict_of_headers_colon:
  "dict_of_headers xs d = Inr h \<Longrightarrow> x \<in> set xs \<Longrightarrow> CHR '':'' \<in> set x"
  by (induction xs arbitrary: d) (auto simp: dict_of_headers_step simp del: dict_of_headers.simps(2) split: if_splits)

lemma dict_of_headers_other:
  "dict_of_headers xs d = Inr h \<Longrightarrow> k \<notin> header_key ` set xs \<Longrightarrow> map_of h k = map_of d k"
  by (induction xs arbitrary: d)
    (auto simp: dict_of_headers_step update_conv' simp del: dict_of_headers.simps(2) split: if_splits)

lemma dict_of_headers_last:
  "dict_of_headers (pre @ x # post) d = Inr h \<Longrightarrow> header_key x \<notin> header_key ` set post \<Longrightarrow>
   map_of h (header_key x) = Some (header_value x)"
proof (induction pre arbitrary: d)
  case Nil
  then have "dict_of_headers post (AList.update (header_key x) (header_value x) d) = Inr h"
    by (auto simp: dict_of_headers_step simp del: dict_of_headers.simps(2) split: if_splits)
  from dict_of_headers_other[OF this Nil(2)] show ?case by (simp add: update_conv')
next
  case (Cons p pre)
  then show ?case
    by (auto simp: dict_of_headers_step simp del: dict_of_headers.simps(2) split: if_splits)
qed

lemma dict_of_headers_total:
  "\<forall>x\<in>set xs. CHR '':'' \<in> set x \<Longrightarrow> \<exists>h. dict_of_headers xs d = Inr h"
  by (induction xs arbitrary: d) (auto simp: dict_of_headers_step simp del: dict_of_headers.simps(2))

text \<open>
  C6, as amended. The headers are read without an error exactly when every line that
  starts with \<^verbatim>\<open>#\<close> contains \<^verbatim>\<open>:\<close>. Then the mapping has \<^verbatim>\<open>url\<close> set to the path of the
  document, whatever the document says, and for every header line it maps the line's key
  (the text before the first \<^verbatim>\<open>:\<close> without its leading \<^verbatim>\<open>#\<close> and space characters, not
  trimmed otherwise) to the line's value (the text after the first \<^verbatim>\<open>:\<close>, trimmed on both
  sides), unless the key is \<^verbatim>\<open>url\<close> or a later header line has the same key.
\<close>

theorem header_extractor_amended:
  "(extract_headers fname lines = Inr h \<longrightarrow>
      map_of h ''url'' = Some fname \<and>
      (\<forall>pre l post. lines = pre @ l # post \<and> startswith l ''#'' \<and> header_key l \<noteq> ''url'' \<and>
          (\<forall>l'\<in>set post. startswith l' ''#'' \<longrightarrow> header_key l' \<noteq> header_key l) \<longrightarrow>
          CHR '':'' \<in> set l \<and> map_of h (header_key l) = Some (header_value l))) \<and>
   ((\<exists>h'. extract_headers fname lines = Inr h') \<longleftrightarrow>
      (\<forall>l\<in>set lines. startswith l ''#'' \<longrightarrow> CHR '':'' \<in> set l))"
proof (intro conjI impI allI)
  assume e: "extract_headers fname lines = Inr h"
  then obtain hd where hd: "dict_of_headers (filter (\<lambda>x. startswith x ''#'') lines) [] = Inr hd"
    and h: "h = AList.update ''url'' fname hd"
    by (auto simp: extract_headers_def split: sum.splits)
  show "map_of h ''url'' = Some fname" by (simp add: h update_conv')
  fix pre l post
  assume a: "lines = pre @ l # post \<and> startswith l ''#'' \<and> header_key l \<noteq> ''url'' \<and>
          (\<forall>l'\<in>set post. startswith l' ''#'' \<longrightarrow> header_key l' \<noteq> header_key l)"
  then have f: "filter (\<lambda>x. startswith x ''#'') lines =
      filter (\<lambda>x. startswith x ''#'') pre @ l # filter (\<lambda>x. startswith x ''#'') post"
    by simp
  have n: "header_key l \<notin> header_key ` set (filter (\<lambda>x. startswith x ''#'') post)"
    using a by auto
  have "l \<in> set (filter (\<lambda>x. startswith x ''#'') lines)" using a by simp
  then show "CHR '':'' \<in> set l" using dict_of_headers_colon[OF hd] by blast
  have "map_of hd (header_key l) = Some (header_value l)"
    using dict_of_headers_last[OF hd[unfolded f] n] .
  then show "map_of h (header_key l) = Some (header_value l)"
    using a by (simp add: h update_conv')
next
  show "(\<exists>h'. extract_headers fname lines = Inr h') \<longleftrightarrow>
      (\<forall>l\<in>set lines. startswith l ''#'' \<longrightarrow> CHR '':'' \<in> set l)"
  proof
    assume "\<exists>h'. extract_headers fname lines = Inr h'"
    then obtain hd where "dict_of_headers (filter (\<lambda>x. startswith x ''#'') lines) [] = Inr hd"
      by (auto simp: extract_headers_def split: sum.splits)
    from dict_of_headers_colon[OF this]
    show "\<forall>l\<in>set lines. startswith l ''#'' \<longrightarrow> CHR '':'' \<in> set l" by simp
  next
    assume "\<forall>l\<in>set lines. startswith l ''#'' \<longrightarrow> CHR '':'' \<in> set l"
    then have "\<forall>x\<in>set (filter (\<lambda>x. startswith x ''#'') lines). CHR '':'' \<in> set x" by simp
    from dict_of_headers_total[OF this, of "[]"]
    show "\<exists>h'. extract_headers fname lines = Inr h'"
      by (auto simp: extract_headers_def)
  qed
qed

theorem header_extractor_amended_witness:
  "extract_headers ''f'' [''# title : Foo'', ''#artist:a:b  '', ''x # y'', ''# title: Bar''] =
     Inr [(''title '', ''Foo''), (''artist'', ''a:b''), (''title'', ''Bar''), (''url'', ''f'')] \<and>
   header_key ''# title : Foo'' = ''title '' \<and> header_value ''# title : Foo'' = ''Foo'' \<and>
   map_of [(''title '', ''Foo''), (''artist'', ''a:b''), (''title'', ''Bar''), (''url'', ''f'')]
     ''title '' = Some ''Foo''"
proof -
  let ?ls = "[''# title : Foo'', ''#artist:a:b  '', ''x # y'', ''# title: Bar'']"
  let ?h = "[(''title '', ''Foo''), (''artist'', ''a:b''), (''title'', ''Bar''), (''url'', ''f'')]"
  have a: "extract_headers ''f'' ?ls = Inr ?h" by code_simp
  have k: "header_key ''# title : Foo'' = ''title ''" by code_simp
  have v: "header_value ''# title : Foo'' = ''Foo''" by code_simp
  have b: "?ls = [] @ ''# title : Foo'' # [''#artist:a:b  '', ''x # y'', ''# title: Bar''] \<and>
      startswith ''# title : Foo'' ''#'' \<and> header_key ''# title : Foo'' \<noteq> ''url'' \<and>
      (\<forall>l'\<in>set [''#artist:a:b  '', ''x # y'', ''# title: Bar''].
          startswith l' ''#'' \<longrightarrow> header_key l' \<noteq> header_key ''# title : Foo'')"
    by code_simp
  from header_extractor_amended[of "''f''" ?ls ?h] a b
  have "map_of ?h (header_key ''# title : Foo'') = Some (header_value ''# title : Foo'')"
    by blast
  then show ?thesis using a k v by simp
qed

text \<open>
  The specification trims the key on both sides. The code strips \<^verbatim>\<open>#\<close> and spaces on the
  left only: the key of this line keeps its trailing space, and the mapping has no entry
  for the trimmed key.
\<close>

theorem header_key_counterexample:
  "map_sum id (\<lambda>h. (map_of h ''title'', map_of h ''# title'', map_of h ''title ''))
     (extract_headers ''f'' (split_char NL (''# title : Foo'' @ [NL]))) =
   Inr (None, None, Some ''Foo'')"
  by code_simp

section \<open>Chord Tokenizer: properties\<close>

lemma findall_example:
  "findall ''| A:maj | Bb:min7 N * &pause x12 xA:maj(1,2) | CC:7 x y'' =
     [''A:maj'', ''Bb:min7'', ''N'', ''*'', ''&pause'', ''x12'', ''A:maj(1,2)'', ''C:7'']"
  by code_simp

lemma resolve_repeats_EmptyTokenList:
  "resolve_repeats it x = Inl EmptyTokenList \<Longrightarrow> x = []"
  by (auto simp: resolve_repeats_def list_repeat_def split: if_splits option.splits)

text \<open>
  C7. The tokenizer is a total function of the line: it has no error. Its tokens are,
  from left to right, the longest symbols of the grammar (a chord symbol, \<^verbatim>\<open>*\<close>,
  \<^verbatim>\<open>&pause\<close>, \<^verbatim>\<open>x\<close> with digits, \<^verbatim>\<open>N\<close>) that start where the scan stands, everything
  else being skipped; every token is a symbol of the grammar; the lines of a section
  that yield no symbol are removed before the repeats are resolved, so that the tokens
  of the section are those of its other lines and no empty token list reaches
  \<^verbatim>\<open>resolve_repeats\<close>.
\<close>

theorem chord_tokenizer_spec:
  "findall line = tokenize_spec line \<and>
   (\<forall>t\<in>set (findall line). is_symbol t) \<and>
   filter valid_lines (map findall ls) =
     map tokenize_spec (filter (\<lambda>l. tokenize_spec l \<noteq> []) ls) \<and>
   section_chords it sec =
     (case collect (resolve_repeats it)
             (map tokenize_spec (filter (\<lambda>l. tokenize_spec l \<noteq> []) (split_char NL sec))) of
        Inl e \<Rightarrow> Inl e
      | Inr cs \<Rightarrow> Inr (concat cs)) \<and>
   section_chords it sec \<noteq> Inl EmptyTokenList"
proof (intro conjI ballI)
  show "findall line = tokenize_spec line" by (rule findall_tokenize_spec)
  show "is_symbol t" if "t \<in> set (findall line)" for t
    using that by (rule findall_symbols)
  show f: "filter valid_lines (map findall ls) =
     map tokenize_spec (filter (\<lambda>l. tokenize_spec l \<noteq> []) ls)" for ls
    by (induction ls) (auto simp: valid_lines_def findall_tokenize_spec)
  show "section_chords it sec =
     (case collect (resolve_repeats it)
             (map tokenize_spec (filter (\<lambda>l. tokenize_spec l \<noteq> []) (split_char NL sec))) of
        Inl e \<Rightarrow> Inl e
      | Inr cs \<Rightarrow> Inr (concat cs))"
    unfolding section_chords_def f ..
  show "section_chords it sec \<noteq> Inl EmptyTokenList"
  proof
    assume "section_chords it sec = Inl EmptyTokenList"
    then have "collect (resolve_repeats it)
        (filter valid_lines (map findall (split_char NL sec))) = Inl EmptyTokenList"
      by (auto simp: section_chords_def split: sum.splits)
    from collect_InlD[OF this] obtain x where
      "x \<in> set (filter valid_lines (map findall (split_char NL sec)))"
      "resolve_repeats it x = Inl EmptyTokenList" by blast
    then show False using resolve_repeats_EmptyTokenList by (auto simp: valid_lines_def)
  qed
qed

theorem chord_tokenizer_spec_witness:
  "tokenize_spec ''| A:maj | Bb:min7 N * &pause x12 xA:maj(1,2) | CC:7 x y'' =
     [''A:maj'', ''Bb:min7'', ''N'', ''*'', ''&pause'', ''x12'', ''A:maj(1,2)'', ''C:7''] \<and>
   is_symbol ''Bb:min7''"
proof -
  have "''Bb:min7'' \<in> set (findall ''| A:maj | Bb:min7 N * &pause x12 xA:maj(1,2) | CC:7 x y'')"
    unfolding findall_example by simp
  then show ?thesis
    using chord_tokenizer_spec[of "''| A:maj | Bb:min7 N * &pause x12 xA:maj(1,2) | CC:7 x y''"]
      findall_example by metis
qed

section \<open>Vocabulary Builder: properties\<close>

lemma sorted_set_props:
  "sorted (sorted_set xs)" "distinct (sorted_set xs)" "set (sorted_set xs) = set xs"
  by (simp_all add: sorted_set_def)

lemma index_fold_other:
  "c \<notin> set xs \<Longrightarrow>
   map_of (fold (\<lambda>(i, c) d. AList.update c i d) (enumerate n xs) d) c = map_of d c"
  by (induction xs arbitrary: n d) (auto simp: update_conv')

lemma index_fold_nth:
  "distinct xs \<Longrightarrow> j < length xs \<Longrightarrow>
   map_of (fold (\<lambda>(i, c) d. AList.update c i d) (enumerate n xs) d) (xs ! j) = Some (n + j)"
proof (induction xs arbitrary: n d j)
  case Nil
  then show ?case by simp
next
  case (Cons x xs)
  show ?case
  proof (cases j)
    case 0
    then show ?thesis using Cons.prems by (simp add: index_fold_other update_conv')
  next
    case (Suc k)
    then show ?thesis using Cons.prems Cons.IH[of k "Suc n"] by simp
  qed
qed

lemma index_dict_nth:
  "distinct xs \<Longrightarrow> j < length xs \<Longrightarrow> map_of (index_dict xs) (xs ! j) = Some j"
  using index_fold_nth[of xs j 0 "[]"] by (simp add: index_dict_def)

lemma rank_in_sorted:
  assumes "sorted xs" "distinct xs" "i < length xs"
  shows "card {t \<in> set xs. t < xs ! i} = i"
proof -
  have s: "sorted_wrt (<) xs" using assms(1,2) by (simp add: strict_sorted_iff)
  have "{t \<in> set xs. t < xs ! i} = set (take i xs)"
  proof (intro set_eqI iffI)
    fix t assume "t \<in> {t \<in> set xs. t < xs ! i}"
    then obtain j where j: "j < length xs" "t = xs ! j" "xs ! j < xs ! i"
      by (auto simp: in_set_conv_nth)
    have "j < i"
    proof (rule ccontr)
      assume "\<not> j < i"
      then have "i \<le> j" by simp
      then have "xs ! i \<le> xs ! j" using assms(1) j(1) by (simp add: sorted_nth_mono)
      then show False using j(3) by simp
    qed
    then show "t \<in> set (take i xs)" using j(1,2) assms(3)
      by (auto simp: in_set_conv_nth intro!: exI[of _ j])
  next
    fix t assume "t \<in> set (take i xs)"
    then obtain j where j: "j < i" "t = xs ! j"
      by (auto simp: in_set_conv_nth)
    then have "xs ! j < xs ! i" using s assms(3) by (simp add: sorted_wrt_nth_less)
    then show "t \<in> {t \<in> set xs. t < xs ! i}" using j assms(3) by simp
  qed
  moreover have "card (set (take i xs)) = i"
    using assms(2,3) by (simp add: distinct_card)
  ultimately show ?thesis by simp
qed

lemma vocabulary_index:
  assumes "c \<in> set xs"
  shows "\<exists>i. map_of (index_dict (sorted_set xs)) c = Some i \<and> i < length (sorted_set xs) \<and>
     sorted_set xs ! i = c \<and> i = card {t \<in> set xs. t < c}"
proof -
  have "c \<in> set (sorted_set xs)" using assms by (simp add: sorted_set_props)
  then obtain i where i: "i < length (sorted_set xs)" "sorted_set xs ! i = c"
    by (auto simp: in_set_conv_nth)
  have "map_of (index_dict (sorted_set xs)) c = Some i"
    using index_dict_nth[OF sorted_set_props(2) i(1)] i(2) by simp
  moreover have "card {t \<in> set xs. t < c} = i"
    using rank_in_sorted[OF sorted_set_props(1,2) i(1)] i(2)
    by (simp add: sorted_set_props)
  ultimately show ?thesis using i by simp
qed

lemma encode_total:
  assumes "set ys \<subseteq> set xs"
  shows "\<exists>r. encode (index_dict (sorted_set xs)) ys = Inr r"
proof -
  have "(case map_of (index_dict (sorted_set xs)) c of
            None \<Rightarrow> Inl UnknownToken | Some i \<Rightarrow> Inr i) =
          Inr (the (map_of (index_dict (sorted_set xs)) c))" if "c \<in> set ys" for c
  proof -
    from that assms have "c \<in> set xs" by blast
    from vocabulary_index[OF this] obtain i where
      "map_of (index_dict (sorted_set xs)) c = Some i" by blast
    then show ?thesis by simp
  qed
  then have "encode (index_dict (sorted_set xs)) ys =
      Inr (map (\<lambda>c. the (map_of (index_dict (sorted_set xs)) c)) ys)"
    unfolding encode_def by (intro collect_Inr) blast
  then show ?thesis by blast
qed

lemma collect_encode_total:
  assumes "\<forall>ys\<in>set yss. set ys \<subseteq> set xs"
  shows "\<exists>r. collect (encode (index_dict (sorted_set xs))) yss = Inr r"
  using assms
proof (induction yss)
  case Nil
  show ?case by simp
next
  case (Cons ys yss)
  then obtain r1 r2 where "encode (index_dict (sorted_set xs)) ys = Inr r1"
    "collect (encode (index_dict (sorted_set xs))) yss = Inr r2"
    using encode_total[of ys xs] by auto
  then show ?case by simp
qed

lemma preprocess_total:
  assumes "songs \<noteq> []"
  shows "\<exists>xs ys. preprocess songs =
     Inr \<lparr>info = map headers songs,
          chords = sorted_set (concat (map chord_seq songs)),
          labels = sorted_set (concat (map label_seq songs)),
          chord2idx = index_dict (sorted_set (concat (map chord_seq songs))),
          label2idx = index_dict (sorted_set (concat (map label_seq songs))),
          X = xs, y = ys\<rparr>"
proof -
  obtain xs where xs: "collect (encode (index_dict (sorted_set (concat (map chord_seq songs)))))
      (map chord_seq songs) = Inr xs"
    using collect_encode_total[of "map chord_seq songs" "concat (map chord_seq songs)"] by auto
  obtain ys where ys: "collect (encode (index_dict (sorted_set (concat (map label_seq songs)))))
      (map label_seq songs) = Inr ys"
    using collect_encode_total[of "map label_seq songs" "concat (map label_seq songs)"] by auto
  show ?thesis using assms xs ys by (simp add: preprocess_def Let_def)
qed

text \<open>
  C8. For a corpus of at least one song the Vocabulary Builder returns a dataset, and in
  it every chord token \<open>c\<close> of every song's \<open>chord_seq\<close> has an index \<open>i\<close> with
  \<open>chords ! i = c\<close>, which is the number of distinct tokens of the corpus that are
  lexicographically smaller than \<open>c\<close>, that is, its rank in the sorted list of the
  distinct tokens; likewise for the labels. Both vocabularies are sorted, without
  duplicates, and hold exactly the tokens that occur.
\<close>

theorem vocabulary_bijection:
  assumes "songs \<noteq> []"
  shows "\<exists>d. preprocess songs = Inr d \<and>
     (\<forall>s\<in>set songs. \<forall>c\<in>set (chord_seq s).
        \<exists>i. map_of (chord2idx d) c = Some i \<and> i < length (chords d) \<and> chords d ! i = c \<and>
            i = card {t \<in> set (concat (map chord_seq songs)). t < c}) \<and>
     (\<forall>s\<in>set songs. \<forall>l\<in>set (label_seq s).
        \<exists>i. map_of (label2idx d) l = Some i \<and> i < length (labels d) \<and> labels d ! i = l \<and>
            i = card {t \<in> set (concat (map label_seq songs)). t < l}) \<and>
     sorted (chords d) \<and> distinct (chords d) \<and>
     set (chords d) = set (concat (map chord_seq songs)) \<and>
     sorted (labels d) \<and> distinct (labels d) \<and>
     set (labels d) = set (concat (map label_seq songs))"
proof -
  from preprocess_total[OF assms] obtain xs ys where
    d: "preprocess songs =
     Inr \<lparr>info = map headers songs,
          chords = sorted_set (concat (map chord_seq songs)),
          labels = sorted_set (concat (map label_seq songs)),
          chord2idx = index_dict (sorted_set (concat (map chord_seq songs))),
          label2idx = index_dict (sorted_set (concat (map label_seq songs))),
          X = xs, y = ys\<rparr>" by blast
  have c: "c \<in> set (concat (map chord_seq songs))" if "s \<in> set songs" "c \<in> set (chord_seq s)" for s c
    using that by auto
  have l: "l \<in> set (concat (map label_seq songs))" if "s \<in> set songs" "l \<in> set (label_seq s)" for s l
    using that by auto
  let ?d = "\<lparr>info = map headers songs,
          chords = sorted_set (concat (map chord_seq songs)),
          labels = sorted_set (concat (map label_seq songs)),
          chord2idx = index_dict (sorted_set (concat (map chord_seq songs))),
          label2idx = index_dict (sorted_set (concat (map label_seq songs))),
          X = xs, y = ys\<rparr>"
  have 1: "\<forall>s\<in>set songs. \<forall>c\<in>set (chord_seq s).
        \<exists>i. map_of (chord2idx ?d) c = Some i \<and> i < length (chords ?d) \<and> chords ?d ! i = c \<and>
            i = card {t \<in> set (concat (map chord_seq songs)). t < c}"
    using vocabulary_index[OF c] by simp
  have 2: "\<forall>s\<in>set songs. \<forall>l\<in>set (label_seq s).
        \<exists>i. map_of (label2idx ?d) l = Some i \<and> i < length (labels ?d) \<and> labels ?d ! i = l \<and>
            i = card {t \<in> set (concat (map label_seq songs)). t < l}"
    using vocabulary_index[OF l] by simp
  have 3: "sorted (chords ?d) \<and> distinct (chords ?d) \<and>
     set (chords ?d) = set (concat (map chord_seq songs)) \<and>
     sorted (labels ?d) \<and> distinct (labels ?d) \<and>
     set (labels ?d) = set (concat (map label_seq songs))"
    using sorted_set_props by simp
  show ?thesis using d 1 2 3 by blast
qed

theorem vocabulary_bijection_witness:
  "preprocess [\<lparr>headers = [(''url'', ''a'')], chord_seq = [''C:maj'', ''A:min'', ''C:maj''],
                label_seq = [''verse'', ''verse'', ''eos'']\<rparr>,
               \<lparr>headers = [(''url'', ''b'')], chord_seq = [''Bb:7''], label_seq = [''eos'']\<rparr>] =
     Inr \<lparr>info = [[(''url'', ''a'')], [(''url'', ''b'')]],
          chords = [''A:min'', ''Bb:7'', ''C:maj''], labels = [''eos'', ''verse''],
          chord2idx = [(''A:min'', 0), (''Bb:7'', 1), (''C:maj'', 2)],
          label2idx = [(''eos'', 0), (''verse'', 1)],
          X = [[2, 0, 2], [1]], y = [[1, 1, 0], [0]]\<rparr> \<and>
   card {t \<in> set [''C:maj'', ''A:min'', ''C:maj'', ''Bb:7'']. t < ''C:maj''} = 2"
proof -
  let ?s1 = "\<lparr>headers = [(''url'', ''a'')], chord_seq = [''C:maj'', ''A:min'', ''C:maj''],
                label_seq = [''verse'', ''verse'', ''eos'']\<rparr>"
  let ?s2 = "\<lparr>headers = [(''url'', ''b'')], chord_seq = [''Bb:7''], label_seq = [''eos'']\<rparr>"
  let ?d = "\<lparr>info = [[(''url'', ''a'')], [(''url'', ''b'')]],
          chords = [''A:min'', ''Bb:7'', ''C:maj''], labels = [''eos'', ''verse''],
          chord2idx = [(''A:min'', 0), (''Bb:7'', 1), (''C:maj'', 2)],
          label2idx = [(''eos'', 0), (''verse'', 1)],
          X = [[2, 0, 2], [1]], y = [[1, 1, 0], [0]]\<rparr>"
  have a: "preprocess [?s1, ?s2] = Inr ?d" by code_simp
  have ne: "[?s1, ?s2] \<noteq> []" by simp
  from vocabulary_bijection[OF ne] a
  have "\<forall>s\<in>set [?s1, ?s2]. \<forall>c\<in>set (chord_seq s).
        \<exists>i. map_of (chord2idx ?d) c = Some i \<and> i < length (chords ?d) \<and> chords ?d ! i = c \<and>
            i = card {t \<in> set (concat (map chord_seq [?s1, ?s2])). t < c}"
    by auto
  then have "\<exists>i. map_of (chord2idx ?d) ''C:maj'' = Some i \<and>
            i = card {t \<in> set (concat (map chord_seq [?s1, ?s2])). t < ''C:maj''}"
    by simp
  then have "card {t \<in> set [''C:maj'', ''A:min'', ''C:maj'', ''Bb:7'']. t < ''C:maj''} = 2"
    by simp
  then show ?thesis using a by simp
qed

section \<open>No retained section\<close>

lemma labelled_chords_total:
  "\<forall>m\<in>set ms. \<exists>ts. section_chords it (snd m) = Inr ts \<Longrightarrow>
   \<exists>ys. collect (labelled_chords it) ms = Inr ys"
  by (rule collect_total) (auto simp: labelled_chords_def)

text \<open>
  C9. A document with at least one segmented section, all of whose normalized labels are
  empty, is not parsed into a song: \<^verbatim>\<open>_process_salami\<close> raises. Where the headers are
  read and the chords of every section are computed without an error, the error is the
  one of line 148, the unpacking of no retained section.
\<close>

theorem no_retained_section_raises:
  assumes "finditer_sections (split_char NL salami) \<noteq> []"
    and "\<forall>m\<in>set (finditer_sections (split_char NL salami)). clean_labels (fst m) = ''''"
  shows "(\<exists>e. process_salami it fname salami = Inl e) \<and>
         (\<forall>hs. extract_headers fname (split_char NL salami) = Inr hs \<and>
            (\<forall>m\<in>set (finditer_sections (split_char NL salami)).
               \<exists>ts. section_chords it (snd m) = Inr ts) \<longrightarrow>
            process_salami it fname salami = Inl NoRetainedSections)"
proof -
  have l: "retained_labels salami = []"
    using assms(2) by (simp add: retained_labels_def filter_empty_conv)
  have k: "kept = []" if "retained_sections it salami = Inr kept" for kept
    using retained_sections_labels[OF that] l by simp
  have 1: "\<exists>e. process_salami it fname salami = Inl e"
  proof (cases "retained_sections it salami")
    case (Inl e)
    then show ?thesis by (auto simp: process_salami_def split: sum.splits)
  next
    case (Inr kept)
    then show ?thesis using k[OF Inr] by (auto simp: process_salami_def split: sum.splits)
  qed
  have 2: "process_salami it fname salami = Inl NoRetainedSections"
    if h: "extract_headers fname (split_char NL salami) = Inr hs"
      and t: "\<forall>m\<in>set (finditer_sections (split_char NL salami)).
               \<exists>ts. section_chords it (snd m) = Inr ts" for hs
  proof -
    from labelled_chords_total[OF t] obtain ys where
      "collect (labelled_chords it) (finditer_sections (split_char NL salami)) = Inr ys" by blast
    then obtain kept where r: "retained_sections it salami = Inr kept"
      by (simp add: retained_sections_def)
    then have "retained_sections it salami = Inr []" using k by blast
    then show ?thesis using h assms(1) by (simp add: process_salami_def)
  qed
  show ?thesis using 1 2 by blast
qed

theorem no_retained_section_raises_witness:
  "finditer_sections (split_char NL (''# title: t'' @ [NL] @ ''0'' @ [TAB] @ ''-, C:maj D:min'' @ [NL] @ ''1'' @ [TAB] @ ''end'' @ [NL])) =
     [(''-'', ''0'' @ [TAB] @ ''-, C:maj D:min'' @ [NL])] \<and>
   clean_labels ''-'' = '''' \<and>
   extract_headers ''f'' (split_char NL (''# title: t'' @ [NL] @ ''0'' @ [TAB] @ ''-, C:maj D:min'' @ [NL] @ ''1'' @ [TAB] @ ''end'' @ [NL])) =
     Inr [(''title'', ''t''), (''url'', ''f'')] \<and>
   process_salami interp64 ''f'' (''# title: t'' @ [NL] @ ''0'' @ [TAB] @ ''-, C:maj D:min'' @ [NL] @ ''1'' @ [TAB] @ ''end'' @ [NL]) =
     Inl NoRetainedSections"
proof -
  let ?doc = "''# title: t'' @ [NL] @ ''0'' @ [TAB] @ ''-, C:maj D:min'' @ [NL] @ ''1'' @ [TAB] @ ''end'' @ [NL]"
  have a: "finditer_sections (split_char NL ?doc) = [(''-'', ''0'' @ [TAB] @ ''-, C:maj D:min'' @ [NL])]"
    by code_simp
  have b: "clean_labels ''-'' = ''''" by code_simp
  have c: "extract_headers ''f'' (split_char NL ?doc) = Inr [(''title'', ''t''), (''url'', ''f'')]"
    by code_simp
  have d: "\<forall>m\<in>set (finditer_sections (split_char NL ?doc)).
      \<exists>ts. section_chords interp64 (snd m) = Inr ts"
  proof -
    have "section_chords interp64 (''0'' @ [TAB] @ ''-, C:maj D:min'' @ [NL]) =
        Inr [''C:maj'', ''D:min'']" by code_simp
    then show ?thesis unfolding a by simp
  qed
  have h1: "finditer_sections (split_char NL ?doc) \<noteq> []" unfolding a by simp
  have h2: "\<forall>m\<in>set (finditer_sections (split_char NL ?doc)). clean_labels (fst m) = ''''"
    unfolding a using b by simp
  from no_retained_section_raises[OF h1 h2, of interp64 "''f''"] c d
  have "process_salami interp64 ''f'' ?doc = Inl NoRetainedSections" by blast
  then show ?thesis using a b c by simp
qed

section \<open>Sequence Assembler: the end-of-section markers\<close>

lemma count_label_run:
  "''eos'' \<notin> fst ` set kept \<Longrightarrow>
   count_list (concat (map (\<lambda>x. replicate (nat (int (length (snd x)) - 1)) (fst x) @ [''eos'']) kept))
     ''eos'' = length kept"
proof (induction kept)
  case Nil
  show ?case by simp
next
  case (Cons x kept)
  have "count_list (replicate n (fst x)) ''eos'' = 0" for n
    using Cons.prems by (induction n) auto
  then show ?case using Cons by simp
qed

lemma set_label_run:
  assumes "l \<in> set (concat (map (\<lambda>x. replicate (nat (int (length (snd x)) - 1)) (fst x) @ [''eos'']) kept))"
    and "l \<noteq> ''eos''"
  shows "l \<in> fst ` set kept"
  using assms by (induction kept) (auto split: if_splits)

text \<open>
  C10, as amended. For every parsed song in which no retained section has the normalized
  label \<^verbatim>\<open>eos\<close>, the number of \<^verbatim>\<open>eos\<close> entries of \<open>label_seq\<close> is the number of retained
  sections (the segmented sections whose normalized label is not empty), whatever their
  token counts; and in every parsed song each entry of \<open>label_seq\<close> other than \<^verbatim>\<open>eos\<close>
  is the normalized label of a retained section.
\<close>

theorem eos_count_amended:
  assumes "process_salami it fname salami = Inr s"
  shows "(''eos'' \<notin> set (retained_labels salami) \<longrightarrow>
            count_list (label_seq s) ''eos'' = length (retained_labels salami)) \<and>
         (\<forall>l\<in>set (label_seq s). l \<noteq> ''eos'' \<longrightarrow> l \<in> set (retained_labels salami))"
proof -
  from process_salami_Inr[OF assms] obtain kept where
    k: "retained_sections it salami = Inr kept"
    and l: "label_seq s =
       concat (map (\<lambda>x. replicate (nat (int (length (snd x)) - 1)) (fst x) @ [''eos'']) kept)"
    by blast
  have m: "map fst kept = retained_labels salami" using retained_sections_labels[OF k] .
  then have f: "fst ` set kept = set (retained_labels salami)" by (metis set_map)
  have n: "length kept = length (retained_labels salami)" using m by (metis length_map)
  show ?thesis
  proof (intro conjI impI ballI)
    assume "''eos'' \<notin> set (retained_labels salami)"
    then show "count_list (label_seq s) ''eos'' = length (retained_labels salami)"
      using count_label_run[of kept] f n l by simp
  next
    fix l' assume "l' \<in> set (label_seq s)" "l' \<noteq> ''eos''"
    then show "l' \<in> set (retained_labels salami)"
      using set_label_run[of l' kept] l f by simp
  qed
qed

theorem eos_count_amended_witness:
  "process_salami interp64 ''f'' (''0'' @ [TAB] @ ''A, verse, | A:maj | B:min |'' @ [NL] @ [TAB] @
       ''| A:maj | x2'' @ [NL] @ ''3'' @ [TAB] @ ''B, chorus, | C:maj |'' @ [NL] @
       ''9'' @ [TAB] @ ''end'' @ [NL]) =
     Inr \<lparr>headers = [(''url'', ''f'')],
          chord_seq = [''A:maj'', ''B:min'', ''A:maj'', ''A:maj'', ''C:maj''],
          label_seq = [''verse'', ''verse'', ''verse'', ''eos'', ''eos'']\<rparr> \<and>
   retained_labels (''0'' @ [TAB] @ ''A, verse, | A:maj | B:min |'' @ [NL] @ [TAB] @
       ''| A:maj | x2'' @ [NL] @ ''3'' @ [TAB] @ ''B, chorus, | C:maj |'' @ [NL] @
       ''9'' @ [TAB] @ ''end'' @ [NL]) = [''verse'', ''chorus''] \<and>
   count_list [''verse'', ''verse'', ''verse'', ''eos'', ''eos''] ''eos'' = 2"
proof -
  let ?doc = "''0'' @ [TAB] @ ''A, verse, | A:maj | B:min |'' @ [NL] @ [TAB] @
       ''| A:maj | x2'' @ [NL] @ ''3'' @ [TAB] @ ''B, chorus, | C:maj |'' @ [NL] @
       ''9'' @ [TAB] @ ''end'' @ [NL]"
  have a: "process_salami interp64 ''f'' ?doc =
     Inr \<lparr>headers = [(''url'', ''f'')],
          chord_seq = [''A:maj'', ''B:min'', ''A:maj'', ''A:maj'', ''C:maj''],
          label_seq = [''verse'', ''verse'', ''verse'', ''eos'', ''eos'']\<rparr>"
    by code_simp
  have b: "retained_labels ?doc = [''verse'', ''chorus'']" by code_simp
  have c: "''eos'' \<notin> set (retained_labels ?doc)" unfolding b by simp
  from eos_count_amended[OF a] c
  have "count_list [''verse'', ''verse'', ''verse'', ''eos'', ''eos''] ''eos'' =
      length (retained_labels ?doc)" by simp
  then show ?thesis using a b by simp
qed

text \<open>
  Without the condition on the labels the count fails where a section is labelled
  \<^verbatim>\<open>eos\<close>: its label entries count as markers. One retained section, two \<^verbatim>\<open>eos\<close>
  entries.
\<close>

theorem eos_count_counterexample:
  "map_sum id (\<lambda>s. count_list (label_seq s) ''eos'')
     (process_salami interp64 ''f'' (''0'' @ [TAB] @ ''eos, C:maj D:min'' @ [NL] @ ''1'' @ [TAB] @ ''end'' @ [NL]))
     = Inr 2 \<and>
   retained_labels (''0'' @ [TAB] @ ''eos, C:maj D:min'' @ [NL] @ ''1'' @ [TAB] @ ''end'' @ [NL])
     = [''eos'']"
  by code_simp

end
